theory Spec2Isabelle
  imports Main
begin

section \<open>Data model\<close>

text \<open>
  The navigation engine of the snake game (\<^verbatim>\<open>utils/pathfinding\<close>): the simulate-first variant,
  the second of the two variants of the source. Coordinates are JavaScript numbers that only
  ever hold integers; they are modelled as \<^typ>\<open>int\<close>.
\<close>

datatype Direction = UP | DOWN | LEFT | RIGHT

text \<open>\<^verbatim>\<open>interface Point { x: number; y: number }\<close>; the fields are called \<open>px\<close> and \<open>py\<close> here.\<close>

record Point =
  px :: int
  py :: int

text \<open>The entries \<^verbatim>\<open>{ point, direction }\<close> that \<^verbatim>\<open>getNeighbors\<close> returns.\<close>

record Neighbor =
  point :: Point
  direction :: Direction

text \<open>The queue entries \<^verbatim>\<open>{ point, path }\<close> of \<^verbatim>\<open>getPath\<close>.\<close>

record QItem =
  qpoint :: Point
  path :: "Direction list"

text \<open>The entries \<^verbatim>\<open>{ dir, x, y }\<close> of \<^verbatim>\<open>possibleMoves\<close> and \<^verbatim>\<open>validMoves\<close>.\<close>

record Move =
  dir :: Direction
  mx :: int
  my :: int

text \<open>The entries \<^verbatim>\<open>{ dir, distToFood, space }\<close> of \<^verbatim>\<open>safeMoves\<close>; \<^verbatim>\<open>null\<close> is \<open>None\<close>.\<close>

record SafeMove =
  sdir :: Direction
  distToFood :: "nat option"
  space :: int

text \<open>Reading a field of \<^verbatim>\<open>undefined\<close> throws a \<^verbatim>\<open>TypeError\<close>.\<close>

datatype error = TypeError

definition BOARD_WIDTH :: int where
  "BOARD_WIDTH = 25"

definition BOARD_HEIGHT :: int where
  "BOARD_HEIGHT = 25"

text \<open>The bounds test that every loop of the source writes out:
  \<^verbatim>\<open>x < 0 || x >= BOARD_WIDTH || y < 0 || y >= BOARD_HEIGHT\<close>.\<close>

definition offBoard :: "Point \<Rightarrow> bool" where
  "offBoard p \<longleftrightarrow> px p < 0 \<or> px p \<ge> BOARD_WIDTH \<or> py p < 0 \<or> py p \<ge> BOARD_HEIGHT"

definition isSamePoint :: "Point \<Rightarrow> Point \<Rightarrow> bool" where
  "isSamePoint p1 p2 \<longleftrightarrow> px p1 = px p2 \<and> py p1 = py p2"

text \<open>\<^verbatim>\<open>xs.slice(0, -1)\<close>: the first \<open>length - 1\<close> elements, nothing for the empty array.\<close>

definition slice_0_m1 :: "'a list \<Rightarrow> 'a list" where
  "slice_0_m1 xs = take (length xs - 1) xs"

section \<open>Neighbours and breadth-first search\<close>

text \<open>
  A \<^verbatim>\<open>Set<string>\<close> of keys \<^verbatim>\<open>pKey(p) = `${p.x},${p.y}`\<close> is modelled as a set of points:
  the key is injective on integer coordinates.
\<close>

definition getNeighbors :: "Point \<Rightarrow> Point set \<Rightarrow> Neighbor list" where
  "getNeighbors head obstacleSet =
     (let moves =
        [\<lparr>point = \<lparr>px = px head, py = py head - 1\<rparr>, direction = UP\<rparr>,
         \<lparr>point = \<lparr>px = px head, py = py head + 1\<rparr>, direction = DOWN\<rparr>,
         \<lparr>point = \<lparr>px = px head - 1, py = py head\<rparr>, direction = LEFT\<rparr>,
         \<lparr>point = \<lparr>px = px head + 1, py = py head\<rparr>, direction = RIGHT\<rparr>]
      in filter (\<lambda>m. if offBoard (point m) then False
                      else if point m \<in> obstacleSet then False
                      else True) moves)"

text \<open>The \<^verbatim>\<open>for\<close> loop of \<^verbatim>\<open>getPath\<close> over the neighbours of the dequeued point.\<close>

fun getPath_for :: "Neighbor list \<Rightarrow> Direction list \<Rightarrow> Point set \<times> QItem list
    \<Rightarrow> Point set \<times> QItem list" where
  "getPath_for [] pth (visited, queue) = (visited, queue)"
| "getPath_for (n # ns) pth (visited, queue) =
     (if point n \<notin> visited
      then getPath_for ns pth
             (insert (point n) visited,
              queue @ [\<lparr>qpoint = point n, path = pth @ [direction n]\<rparr>])
      else getPath_for ns pth (visited, queue))"

text \<open>The \<^verbatim>\<open>while (queue.length > 0)\<close> loop of \<^verbatim>\<open>getPath\<close>; \<^verbatim>\<open>queue.shift()\<close> takes the head.\<close>

function getPath_while :: "Point \<Rightarrow> Point set \<Rightarrow> QItem list \<Rightarrow> Point set
    \<Rightarrow> Direction list option" where
  "getPath_while target obstacleSet [] visited = None"
| "getPath_while target obstacleSet (item # queue) visited =
     (if isSamePoint (qpoint item) target then Some (path item)
      else (case getPath_for (getNeighbors (qpoint item) obstacleSet) (path item) (visited, queue) of
              (visited', queue') \<Rightarrow> getPath_while target obstacleSet queue' visited'))"
  by pat_completeness auto

definition getPath :: "Point \<Rightarrow> Point \<Rightarrow> Point set \<Rightarrow> Direction list option" where
  "getPath start target obstacleSet =
     getPath_while target obstacleSet [\<lparr>qpoint = start, path = []\<rparr>] {start}"

section \<open>Flood fill\<close>

text \<open>The \<^verbatim>\<open>for\<close> loop of \<^verbatim>\<open>getAccessibleAreaSize\<close>; an off-board cell is skipped by \<^verbatim>\<open>continue\<close>.\<close>

fun getAccessibleAreaSize_for :: "Point list \<Rightarrow> Point set \<Rightarrow> Point set \<times> Point list
    \<Rightarrow> Point set \<times> Point list" where
  "getAccessibleAreaSize_for [] obstacleSet (visited, queue) = (visited, queue)"
| "getAccessibleAreaSize_for (n # ns) obstacleSet (visited, queue) =
     (if offBoard n then getAccessibleAreaSize_for ns obstacleSet (visited, queue)
      else if n \<notin> visited \<and> n \<notin> obstacleSet
      then getAccessibleAreaSize_for ns obstacleSet (insert n visited, queue @ [n])
      else getAccessibleAreaSize_for ns obstacleSet (visited, queue))"

function getAccessibleAreaSize_while :: "Point set \<Rightarrow> Point list \<Rightarrow> Point set \<Rightarrow> int \<Rightarrow> int" where
  "getAccessibleAreaSize_while obstacleSet [] visited count = count"
| "getAccessibleAreaSize_while obstacleSet (current # queue) visited count =
     (let nexts =
        [\<lparr>px = px current, py = py current - 1\<rparr>,
         \<lparr>px = px current, py = py current + 1\<rparr>,
         \<lparr>px = px current - 1, py = py current\<rparr>,
         \<lparr>px = px current + 1, py = py current\<rparr>]
      in (case getAccessibleAreaSize_for nexts obstacleSet (visited, queue) of
            (visited', queue') \<Rightarrow>
              getAccessibleAreaSize_while obstacleSet queue' visited' (count + 1)))"
  by pat_completeness auto

definition getAccessibleAreaSize :: "Point \<Rightarrow> Point set \<Rightarrow> int" where
  "getAccessibleAreaSize start obstacleSet =
     getAccessibleAreaSize_while obstacleSet [start] {start} 0"

section \<open>The decision policy\<close>

definition possibleMoves :: "Point \<Rightarrow> Move list" where
  "possibleMoves head =
     [\<lparr>dir = UP, mx = px head, my = py head - 1\<rparr>,
      \<lparr>dir = DOWN, mx = px head, my = py head + 1\<rparr>,
      \<lparr>dir = LEFT, mx = px head - 1, my = py head\<rparr>,
      \<lparr>dir = RIGHT, mx = px head + 1, my = py head\<rparr>]"

text \<open>Step 1 of \<^verbatim>\<open>getNextAutoMove\<close>: walls, neck and body (the tail left out) are filtered away.
  The caller has checked that the snake is not empty.\<close>

definition validMoves :: "Point list \<Rightarrow> Move list" where
  "validMoves snake =
     (let neck = (if length snake > 1 then Some (snake ! 1) else None)
      in filter (\<lambda>m.
           if mx m < 0 \<or> mx m \<ge> BOARD_WIDTH \<or> my m < 0 \<or> my m \<ge> BOARD_HEIGHT then False
           else if (case neck of None \<Rightarrow> False | Some nk \<Rightarrow> mx m = px nk \<and> my m = py nk) then False
           else if list_ex (\<lambda>p. px p = mx m \<and> py p = my m) (slice_0_m1 snake) then False
           else True) (possibleMoves (snake ! 0)))"

text \<open>The virtual snake after a move to \<open>nextHead\<close>: the whole snake is kept when the move eats.\<close>

definition virtualSnake :: "Point list \<Rightarrow> Point \<Rightarrow> Point \<Rightarrow> Point list" where
  "virtualSnake snake food nextHead =
     (let willEat = (px nextHead = px food \<and> py nextHead = py food)
      in if willEat then nextHead # snake else nextHead # slice_0_m1 snake)"

text \<open>Step 2: the loop that collects the safe moves.\<close>

fun safeMoves_for :: "Move list \<Rightarrow> Point list \<Rightarrow> Point \<Rightarrow> SafeMove list \<Rightarrow> SafeMove list" where
  "safeMoves_for [] snake food safeMoves = safeMoves"
| "safeMoves_for (move # rest) snake food safeMoves =
     (let nextHead = \<lparr>px = mx move, py = my move\<rparr>;
          vSnake = virtualSnake snake food nextHead;
          virtualTail = vSnake ! (length vSnake - 1);
          obstaclesArr = slice_0_m1 vSnake;
          obstacleSet = set obstaclesArr;
          pathToTail = getPath nextHead virtualTail obstacleSet
      in if pathToTail \<noteq> None
         then (let pathToFood = getPath nextHead food obstacleSet
               in safeMoves_for rest snake food
                    (safeMoves @
                      [\<lparr>sdir = dir move,
                        distToFood = (case pathToFood of Some p \<Rightarrow> Some (length p) | None \<Rightarrow> None),
                        space = 0\<rparr>]))
         else safeMoves_for rest snake food safeMoves)"

text \<open>Strategy B: the loop over the safe moves that keeps the first move of largest space.
  \<^verbatim>\<open>validMoves.find(...)!\<close> is \<^verbatim>\<open>undefined\<close> when nothing matches, and reading its \<^verbatim>\<open>x\<close> throws.\<close>

fun strategyB_for :: "SafeMove list \<Rightarrow> Move list \<Rightarrow> Point list \<Rightarrow> Point \<Rightarrow> Direction \<times> int
    \<Rightarrow> error + Direction" where
  "strategyB_for [] vMoves snake food (bestDir, maxSpace) = Inr bestDir"
| "strategyB_for (sm # rest) vMoves snake food (bestDir, maxSpace) =
     (case find (\<lambda>vm. dir vm = sdir sm) vMoves of
        None \<Rightarrow> Inl TypeError
      | Some nextHead \<Rightarrow>
          (let vSnake = virtualSnake snake food \<lparr>px = mx nextHead, py = my nextHead\<rparr>;
               obsSet = set vSnake;
               spc = getAccessibleAreaSize \<lparr>px = mx nextHead, py = my nextHead\<rparr> obsSet
           in if spc > maxSpace
              then strategyB_for rest vMoves snake food (sdir sm, spc)
              else strategyB_for rest vMoves snake food (bestDir, maxSpace)))"

text \<open>Strategy C: the emergency loop over the valid moves.\<close>

fun strategyC_for :: "Move list \<Rightarrow> Point list \<Rightarrow> Direction option \<times> int \<Rightarrow> Direction option" where
  "strategyC_for [] snake (bestEmergencyDir, maxEmergencySpace) = bestEmergencyDir"
| "strategyC_for (move # rest) snake (bestEmergencyDir, maxEmergencySpace) =
     (let nextHead = \<lparr>px = mx move, py = my move\<rparr>;
          obsSet = set (slice_0_m1 snake);
          spc = getAccessibleAreaSize nextHead obsSet
      in if spc > maxEmergencySpace
         then strategyC_for rest snake (Some (dir move), spc)
         else strategyC_for rest snake (bestEmergencyDir, maxEmergencySpace))"

text \<open>
  \<^verbatim>\<open>getNextAutoMove\<close>. \<^verbatim>\<open>head.x\<close> throws on an empty snake. \<^verbatim>\<open>Array.prototype.sort\<close> is
  stable, as \<^const>\<open>sort_key\<close> is. A direction is a non-empty string, so
  \<^verbatim>\<open>bestEmergencyDir || validMoves[0].dir\<close> takes the right operand only for \<^verbatim>\<open>null\<close>.
\<close>

definition getNextAutoMove :: "Point list \<Rightarrow> Point \<Rightarrow> error + Direction option" where
  "getNextAutoMove snake food =
     (if snake = [] then Inl TypeError
      else
       (let vMoves = validMoves snake
        in if length vMoves = 0 then Inr None
           else
            (let safeMoves = safeMoves_for vMoves snake food [];
                 movesWithFood = filter (\<lambda>m. distToFood m \<noteq> None) safeMoves
             in if length movesWithFood > 0
                then Inr (Some (sdir (sort_key (\<lambda>m. the (distToFood m)) movesWithFood ! 0)))
                else if length safeMoves > 0
                then (case strategyB_for safeMoves vMoves snake food (sdir (safeMoves ! 0), - 1) of
                        Inl e \<Rightarrow> Inl e
                      | Inr bestDir \<Rightarrow> Inr (Some bestDir))
                else (case strategyC_for vMoves snake (None, - 1) of
                        Some d \<Rightarrow> Inr (Some d)
                      | None \<Rightarrow> Inr (Some (dir (vMoves ! 0)))))))"

section \<open>The grid graph of the specification\<close>

text \<open>The unit delta of a direction: \<open>UP = (0, -1)\<close>, \<open>DOWN = (0, +1)\<close>, \<open>LEFT = (-1, 0)\<close>,
  \<open>RIGHT = (+1, 0)\<close>.\<close>

fun applyDirection :: "Point \<Rightarrow> Direction \<Rightarrow> Point" where
  "applyDirection p UP = \<lparr>px = px p, py = py p - 1\<rparr>"
| "applyDirection p DOWN = \<lparr>px = px p, py = py p + 1\<rparr>"
| "applyDirection p LEFT = \<lparr>px = px p - 1, py = py p\<rparr>"
| "applyDirection p RIGHT = \<lparr>px = px p + 1, py = py p\<rparr>"

definition inBounds :: "Point \<Rightarrow> bool" where
  "inBounds p \<longleftrightarrow> 0 \<le> px p \<and> px p < BOARD_WIDTH \<and> 0 \<le> py p \<and> py p < BOARD_HEIGHT"

text \<open>One step of a search: to a 4-neighbour that is on the board and not an obstacle. The cell
  the step leaves is not tested, so a start cell is visitable even when it is an obstacle.\<close>

definition step_rel :: "Point set \<Rightarrow> (Point \<times> Point) set" where
  "step_rel obs = {(p, q). (\<exists>d. q = applyDirection p d) \<and> inBounds q \<and> q \<notin> obs}"

text \<open>The grid graph with the obstacle cells removed: both ends of an edge are free cells.\<close>

definition grid_graph :: "Point set \<Rightarrow> (Point \<times> Point) set" where
  "grid_graph obs =
     {(p, q). inBounds p \<and> p \<notin> obs \<and> inBounds q \<and> q \<notin> obs \<and> (\<exists>d. q = applyDirection p d)}"

text \<open>The cells a direction sequence visits, the start first.\<close>

fun walk :: "Point \<Rightarrow> Direction list \<Rightarrow> Point list" where
  "walk p [] = [p]"
| "walk p (d # ds) = p # walk (applyDirection p d) ds"

section \<open>Invariants of the searches\<close>

text \<open>A queue entry of the breadth-first search: its path leads from the start to its point
  over free cells, visits no cell twice, stays inside the visited set, and no shorter
  sequence of steps reaches the point.\<close>

definition item_ok :: "Point \<Rightarrow> Point set \<Rightarrow> Point set \<Rightarrow> QItem \<Rightarrow> bool" where
  "item_ok start obs vis it \<longleftrightarrow>
     last (walk start (path it)) = qpoint it \<and>
     (\<forall>c \<in> set (tl (walk start (path it))). inBounds c \<and> c \<notin> obs) \<and>
     distinct (walk start (path it)) \<and>
     set (walk start (path it)) \<subseteq> vis \<and>
     (\<forall>n < length (path it). (start, qpoint it) \<notin> step_rel obs ^^ n)"

definition bfs_inv :: "Point \<Rightarrow> Point \<Rightarrow> Point set \<Rightarrow> QItem list \<Rightarrow> Point set \<Rightarrow> bool" where
  "bfs_inv start target obs queue vis \<longleftrightarrow>
     start \<in> vis \<and>
     (\<forall>it \<in> set queue. item_ok start obs vis it) \<and>
     (\<forall>v \<in> vis. (start, v) \<in> (step_rel obs)\<^sup>*) \<and>
     sorted (map (\<lambda>it. length (path it)) queue) \<and>
     (\<forall>it \<in> set queue. length (path it) \<le> Suc (length (path (hd queue)))) \<and>
     (\<forall>u \<in> vis - qpoint ` set queue. u \<noteq> target \<and> (\<forall>v. (u, v) \<in> step_rel obs \<longrightarrow> v \<in> vis)) \<and>
     (\<forall>v n. queue \<noteq> [] \<longrightarrow> n \<le> length (path (hd queue)) \<longrightarrow> (start, v) \<in> step_rel obs ^^ n \<longrightarrow> v \<in> vis)"

text \<open>The flood fill: the queue holds visited cells not yet counted, once each.\<close>

definition flood_inv :: "Point \<Rightarrow> Point set \<Rightarrow> Point list \<Rightarrow> Point set \<Rightarrow> int \<Rightarrow> bool" where
  "flood_inv start obs queue vis count \<longleftrightarrow>
     start \<in> vis \<and> finite vis \<and> distinct queue \<and> set queue \<subseteq> vis \<and>
     count = int (card (vis - set queue)) \<and>
     (\<forall>v \<in> vis. (start, v) \<in> (step_rel obs)\<^sup>*) \<and>
     (\<forall>u \<in> vis - set queue. \<forall>v. (u, v) \<in> step_rel obs \<longrightarrow> v \<in> vis)"

section \<open>Notions of the specification\<close>

text \<open>The graph distance: the least number of steps that lead from one cell to the other.\<close>

definition graph_dist :: "Point set \<Rightarrow> Point \<Rightarrow> Point \<Rightarrow> nat" where
  "graph_dist obs s g = (LEAST n. (s, g) \<in> step_rel obs ^^ n)"

definition grid_dist :: "Point set \<Rightarrow> Point \<Rightarrow> Point \<Rightarrow> nat" where
  "grid_dist obs s g = (LEAST n. (s, g) \<in> grid_graph obs ^^ n)"

text \<open>The connected component of a cell in the grid graph (the graph is symmetric).\<close>

definition component :: "Point set \<Rightarrow> Point \<Rightarrow> Point set" where
  "component obs start = {v. (start, v) \<in> (grid_graph obs)\<^sup>*}"

text \<open>The fixed enumeration order of the directions, and the rank of a direction in it.\<close>

definition enumeration :: "Direction list" where
  "enumeration = [UP, DOWN, LEFT, RIGHT]"

fun dir_rank :: "Direction \<Rightarrow> nat" where
  "dir_rank UP = 0"
| "dir_rank DOWN = 1"
| "dir_rank LEFT = 2"
| "dir_rank RIGHT = 3"

text \<open>The entry of \<^const>\<open>possibleMoves\<close> for a direction.\<close>

definition moveOf :: "Point \<Rightarrow> Direction \<Rightarrow> Move" where
  "moveOf h d = \<lparr>dir = d, mx = px (applyDirection h d), my = py (applyDirection h d)\<rparr>"

text \<open>Candidate generation as the specification words it: the neighbour of the head is on
  the board, is not the neck, and is not occupied by a body cell other than the tail.\<close>

definition isCandidate :: "Point list \<Rightarrow> Direction \<Rightarrow> bool" where
  "isCandidate snake d \<longleftrightarrow>
     inBounds (applyDirection (hd snake) d) \<and>
     \<not> (1 < length snake \<and> applyDirection (hd snake) d = snake ! 1) \<and>
     applyDirection (hd snake) d \<notin> set (butlast snake)"

text \<open>The move simulator of the specification: the virtual body keeps the whole body when the
  candidate head is the target and drops the last cell otherwise; the virtual tail is its last
  cell, and the obstacles are the virtual body without that cell.\<close>

record VirtualState =
  virtualBody :: "Point list"
  virtualTail :: Point
  obstaclesExcludingTail :: "Point set"

definition simulate :: "Point list \<Rightarrow> Point \<Rightarrow> Point \<Rightarrow> VirtualState" where
  "simulate body candidateHead target =
     (let vb = (if candidateHead = target then [candidateHead] @ body
                else [candidateHead] @ butlast body)
      in \<lparr>virtualBody = vb, virtualTail = last vb, obstaclesExcludingTail = set (butlast vb)\<rparr>)"

text \<open>A candidate is safe when the search finds a path from the virtual head to the virtual
  tail; its distance to the target is the length of the path the search finds.\<close>

definition isSafe :: "Point list \<Rightarrow> Point \<Rightarrow> Direction \<Rightarrow> bool" where
  "isSafe snake food d \<longleftrightarrow>
     (let c = applyDirection (hd snake) d; vs = simulate snake c food
      in getPath c (virtualTail vs) (obstaclesExcludingTail vs) \<noteq> None)"

definition distToTarget :: "Point list \<Rightarrow> Point \<Rightarrow> Direction \<Rightarrow> nat option" where
  "distToTarget snake food d =
     (let c = applyDirection (hd snake) d; vs = simulate snake c food
      in map_option length (getPath c food (obstaclesExcludingTail vs)))"

text \<open>The flood-fill count of a candidate over the whole virtual body, over the virtual body
  without its last cell, and (for the emergency tier) over the current body without its tail.\<close>

definition spaceWithTail :: "Point list \<Rightarrow> Point \<Rightarrow> Direction \<Rightarrow> int" where
  "spaceWithTail snake food d =
     (let c = applyDirection (hd snake) d; vs = simulate snake c food
      in getAccessibleAreaSize c (set (virtualBody vs)))"

definition spaceExcludingTail :: "Point list \<Rightarrow> Point \<Rightarrow> Direction \<Rightarrow> int" where
  "spaceExcludingTail snake food d =
     (let c = applyDirection (hd snake) d; vs = simulate snake c food
      in getAccessibleAreaSize c (obstaclesExcludingTail vs))"

definition spaceEmergency :: "Point list \<Rightarrow> Direction \<Rightarrow> int" where
  "spaceEmergency snake d = getAccessibleAreaSize (applyDirection (hd snake) d) (set (butlast snake))"

text \<open>The entry of \<^verbatim>\<open>safeMoves\<close> for a direction.\<close>

definition mkSafe :: "Point list \<Rightarrow> Point \<Rightarrow> Direction \<Rightarrow> SafeMove" where
  "mkSafe snake food d = \<lparr>sdir = d, distToFood = distToTarget snake food d, space = 0\<rparr>"

text \<open>The preconditions of the engine: the body is not empty, does not intersect itself and
  lies on the board; the target is on the board and not inside the body.\<close>

definition validInput :: "Point list \<Rightarrow> Point \<Rightarrow> bool" where
  "validInput snake food \<longleftrightarrow>
     snake \<noteq> [] \<and> distinct snake \<and> (\<forall>c \<in> set snake. inBounds c) \<and>
     inBounds food \<and> food \<notin> set snake"

text \<open>The postcondition on a returned direction: the new head cell is on the board and not
  occupied by a body cell, except possibly the current tail.\<close>

definition legalStep :: "Point list \<Rightarrow> Direction \<Rightarrow> bool" where
  "legalStep snake d \<longleftrightarrow>
     inBounds (applyDirection (hd snake) d) \<and>
     applyDirection (hd snake) d \<notin> set snake - {last snake}"

text \<open>The rule of the second tier as the specification words it: the returned direction is a
  safe candidate of largest flood-fill count over the virtual body without its last cell,
  the first such in the enumeration order.\<close>

definition tier2ExcludingTail :: "Point list \<Rightarrow> Point \<Rightarrow> bool" where
  "tier2ExcludingTail snake food \<longleftrightarrow>
     (\<exists>d. getNextAutoMove snake food = Inr (Some d) \<and>
          isCandidate snake d \<and> isSafe snake food d \<and>
          (\<forall>d'. isCandidate snake d' \<and> isSafe snake food d' \<longrightarrow>
             spaceExcludingTail snake food d' < spaceExcludingTail snake food d \<or>
             (spaceExcludingTail snake food d' = spaceExcludingTail snake food d \<and>
              dir_rank d \<le> dir_rank d')))"

section \<open>Concrete inputs\<close>

text \<open>Scenario A of the specification, a body that has no legal step, and a coiled body whose
  two safe steps lead into the same pocket.\<close>

abbreviation scenarioA_body :: "Point list" where
  "scenarioA_body \<equiv> [\<lparr>px = 2, py = 2\<rparr>, \<lparr>px = 2, py = 3\<rparr>, \<lparr>px = 2, py = 4\<rparr>]"

abbreviation scenarioA_target :: Point where
  "scenarioA_target \<equiv> \<lparr>px = 2, py = 0\<rparr>"

abbreviation trapped_body :: "Point list" where
  "trapped_body \<equiv>
     [\<lparr>px = 0, py = 0\<rparr>, \<lparr>px = 0, py = 1\<rparr>, \<lparr>px = 1, py = 1\<rparr>, \<lparr>px = 1, py = 0\<rparr>, \<lparr>px = 2, py = 0\<rparr>]"

abbreviation coiled_body :: "Point list" where
  "coiled_body \<equiv>
     [\<lparr>px = 1, py = 1\<rparr>, \<lparr>px = 1, py = 0\<rparr>, \<lparr>px = 2, py = 0\<rparr>, \<lparr>px = 2, py = 1\<rparr>, \<lparr>px = 2, py = 2\<rparr>,
      \<lparr>px = 2, py = 3\<rparr>, \<lparr>px = 1, py = 3\<rparr>, \<lparr>px = 0, py = 3\<rparr>, \<lparr>px = 0, py = 2\<rparr>, \<lparr>px = 1, py = 2\<rparr>]"

abbreviation far_target :: Point where
  "far_target \<equiv> \<lparr>px = 5, py = 5\<rparr>"

section \<open>Termination of the two searches\<close>

lemma finite_board: "finite {p. \<not> offBoard p}"
proof -
  have "{p. \<not> offBoard p} \<subseteq> (\<lambda>(a, b). \<lparr>px = a, py = b\<rparr>) ` ({0..<BOARD_WIDTH} \<times> {0..<BOARD_HEIGHT})"
  proof
    fix p assume "p \<in> {p. \<not> offBoard p}"
    then have "(px p, py p) \<in> {0..<BOARD_WIDTH} \<times> {0..<BOARD_HEIGHT}"
      by (auto simp: offBoard_def)
    moreover have "p = (\<lambda>(a, b). \<lparr>px = a, py = b\<rparr>) (px p, py p)" by simp
    ultimately show "p \<in> (\<lambda>(a, b). \<lparr>px = a, py = b\<rparr>) ` ({0..<BOARD_WIDTH} \<times> {0..<BOARD_HEIGHT})"
      by (rule rev_image_eqI)
  qed
  then show ?thesis by (rule finite_subset) simp
qed

lemma getPath_for_eq:
  "distinct (map point ns) \<Longrightarrow>
   getPath_for ns pth (vis, q) =
     (vis \<union> point ` set ns,
      q @ map (\<lambda>n. \<lparr>qpoint = point n, path = pth @ [direction n]\<rparr>) (filter (\<lambda>n. point n \<notin> vis) ns))"
proof (induction ns arbitrary: vis q)
  case Nil
  then show ?case by simp
next
  case (Cons n ns)
  from Cons.prems have d: "distinct (map point ns)" and nin: "\<forall>m\<in>set ns. point m \<noteq> point n" by (auto simp: image_iff)
  show ?case
  proof (cases "point n \<in> vis")
    case True
    then show ?thesis using Cons.IH [OF d, of vis q] by auto
  next
    case False
    have "filter (\<lambda>m. point m \<notin> insert (point n) vis) ns = filter (\<lambda>m. point m \<notin> vis) ns"
      using nin by (intro filter_cong) auto
    then show ?thesis using False Cons.IH [OF d, of "insert (point n) vis"] by simp
  qed
qed

lemma getNeighbors_distinct: "distinct (map point (getNeighbors p obs))"
  by (simp add: getNeighbors_def Let_def distinct_map_filter)

lemma getNeighbors_onBoard: "n \<in> set (getNeighbors p obs) \<Longrightarrow> \<not> offBoard (point n) \<and> point n \<notin> obs"
  by (auto simp: getNeighbors_def Let_def split: if_splits)

lemma card_board_less:
  assumes "p \<notin> vis" "\<not> offBoard p" "p \<in> vis'" "vis \<subseteq> vis'"
  shows "card ({p. \<not> offBoard p} - vis') < card ({p. \<not> offBoard p} - vis)"
proof (rule psubset_card_mono)
  show "finite ({p. \<not> offBoard p} - vis)" using finite_board by simp
  show "{p. \<not> offBoard p} - vis' \<subset> {p. \<not> offBoard p} - vis" using assms by auto
qed

termination getPath_while
proof (relation "inv_image (less_than <*lex*> less_than)
         (\<lambda>(t, obs, q, vis). (card ({p. \<not> offBoard p} - vis), length q))", goal_cases)
  case 1
  then show ?case by (intro wf_inv_image wf_lex_prod wf_less_than)
next
  case (2 target obstacleSet item queue visited xa y)
  let ?ns = "getNeighbors (qpoint item) obstacleSet"
  let ?new = "filter (\<lambda>n. point n \<notin> visited) ?ns"
  from 2(2) have eq: "xa = visited \<union> point ` set ?ns"
      "y = queue @ map (\<lambda>n. \<lparr>qpoint = point n, path = path item @ [direction n]\<rparr>) ?new"
    by (simp_all add: getPath_for_eq [OF getNeighbors_distinct])
  show ?case
  proof (cases "?new = []")
    case True
    then have "point ` set ?ns \<subseteq> visited" by (auto simp: filter_empty_conv)
    then have "xa = visited" using eq by auto
    then show ?thesis using eq True by simp
  next
    case False
    then obtain n where n: "n \<in> set ?ns" "point n \<notin> visited"
      by (auto simp: filter_empty_conv)
    have "card ({p. \<not> offBoard p} - xa) < card ({p. \<not> offBoard p} - visited)"
      using n getNeighbors_onBoard [OF n(1)] eq by (intro card_board_less [of "point n"]) auto
    then show ?thesis by simp
  qed
qed

lemma getAccessibleAreaSize_for_eq:
  "distinct ns \<Longrightarrow>
   getAccessibleAreaSize_for ns obs (vis, q) =
     (vis \<union> {n \<in> set ns. \<not> offBoard n \<and> n \<notin> obs},
      q @ filter (\<lambda>n. \<not> offBoard n \<and> n \<notin> vis \<and> n \<notin> obs) ns)"
proof (induction ns arbitrary: vis q)
  case Nil
  then show ?case by simp
next
  case (Cons n ns)
  from Cons.prems have d: "distinct ns" and nin: "n \<notin> set ns" by auto
  show ?case
  proof (cases "\<not> offBoard n \<and> n \<notin> vis \<and> n \<notin> obs")
    case True
    have "filter (\<lambda>m. \<not> offBoard m \<and> m \<notin> insert n vis \<and> m \<notin> obs) ns
        = filter (\<lambda>m. \<not> offBoard m \<and> m \<notin> vis \<and> m \<notin> obs) ns"
      using nin by (intro filter_cong) auto
    then show ?thesis using True Cons.IH [OF d, of "insert n vis"] by auto
  next
    case False
    then show ?thesis using Cons.IH [OF d, of vis q] by auto
  qed
qed

lemma nexts_distinct:
  "distinct [\<lparr>px = px c, py = py c - 1\<rparr>, \<lparr>px = px c, py = py c + 1\<rparr>,
             \<lparr>px = px c - 1, py = py c\<rparr>, \<lparr>px = px c + 1, py = py c\<rparr>]"
  by simp

termination getAccessibleAreaSize_while
proof (relation "inv_image (less_than <*lex*> less_than)
         (\<lambda>(obs, q, vis, c). (card ({p. \<not> offBoard p} - vis), length q))", goal_cases)
  case 1
  then show ?case by (intro wf_inv_image wf_lex_prod wf_less_than)
next
  case (2 obstacleSet current queue visited count nexts xa y)
  let ?new = "filter (\<lambda>n. \<not> offBoard n \<and> n \<notin> visited \<and> n \<notin> obstacleSet) nexts"
  have dn: "distinct nexts" unfolding 2(1) by (rule nexts_distinct)
  from 2(2) have eq: "xa = visited \<union> {n \<in> set nexts. \<not> offBoard n \<and> n \<notin> obstacleSet}"
      "y = queue @ ?new"
    by (simp_all add: getAccessibleAreaSize_for_eq [OF dn])
  show ?case
  proof (cases "?new = []")
    case True
    then have "{n \<in> set nexts. \<not> offBoard n \<and> n \<notin> obstacleSet} \<subseteq> visited"
      by (auto simp: filter_empty_conv)
    then have "xa = visited" using eq by auto
    then show ?thesis using eq True by simp
  next
    case False
    then obtain n where n: "n \<in> set nexts" "\<not> offBoard n" "n \<notin> visited" "n \<notin> obstacleSet"
      by (auto simp: filter_empty_conv)
    have "card ({p. \<not> offBoard p} - xa) < card ({p. \<not> offBoard p} - visited)"
      using n eq by (intro card_board_less [of n]) auto
    then show ?thesis by simp
  qed
qed

section \<open>Correctness of the breadth-first search\<close>

lemma offBoard_iff: "offBoard p \<longleftrightarrow> \<not> inBounds p"
  by (auto simp: offBoard_def inBounds_def)

lemma isSamePoint_iff: "isSamePoint p q \<longleftrightarrow> p = q"
  by (auto simp: isSamePoint_def)

lemma slice_0_m1_butlast: "slice_0_m1 xs = butlast xs"
  by (simp add: slice_0_m1_def butlast_conv_take)

lemma getNeighbors_iff:
  "n \<in> set (getNeighbors p obs) \<longleftrightarrow>
     point n = applyDirection p (direction n) \<and> inBounds (point n) \<and> point n \<notin> obs"
  by (cases n; cases "direction n") (auto simp: getNeighbors_def offBoard_iff)

lemma step_rel_iff: "(p, q) \<in> step_rel obs \<longleftrightarrow> q \<in> point ` set (getNeighbors p obs)"
proof
  assume "(p, q) \<in> step_rel obs"
  then obtain d where "q = applyDirection p d" "inBounds q" "q \<notin> obs"
    by (auto simp: step_rel_def)
  then have "\<lparr>point = q, direction = d\<rparr> \<in> set (getNeighbors p obs)"
    by (simp add: getNeighbors_iff)
  then show "q \<in> point ` set (getNeighbors p obs)" by force
next
  assume "q \<in> point ` set (getNeighbors p obs)"
  then show "(p, q) \<in> step_rel obs"
    by (auto simp: getNeighbors_iff step_rel_def)
qed

lemma walk_nonempty: "walk s ds \<noteq> []"
  by (cases ds) auto

lemma hd_walk: "hd (walk s ds) = s"
  by (cases ds) auto

lemma length_walk: "length (walk s ds) = Suc (length ds)"
  by (induction ds arbitrary: s) auto

lemma walk_snoc: "walk s (ds @ [d]) = walk s ds @ [applyDirection (last (walk s ds)) d]"
  by (induction ds arbitrary: s) (auto simp: walk_nonempty)

lemma walk_relpow:
  "\<forall>c\<in>set (tl (walk s ds)). inBounds c \<and> c \<notin> obs \<Longrightarrow>
   (s, last (walk s ds)) \<in> step_rel obs ^^ length ds"
proof (induction ds arbitrary: s)
  case Nil
  then show ?case by simp
next
  case (Cons d ds)
  let ?t = "applyDirection s d"
  have w: "walk ?t ds = ?t # tl (walk ?t ds)"
    by (metis hd_walk list.collapse walk_nonempty)
  from Cons.prems w have free: "inBounds ?t" "?t \<notin> obs"
    and rest: "\<forall>c\<in>set (tl (walk ?t ds)). inBounds c \<and> c \<notin> obs"
    by (auto simp: list.set_sel(2) walk_nonempty) (metis list.set_intros(1))+
  have "(s, ?t) \<in> step_rel obs" using free by (auto simp: step_rel_def)
  moreover have "(?t, last (walk ?t ds)) \<in> step_rel obs ^^ length ds"
    by (rule Cons.IH [OF rest])
  ultimately have "(s, last (walk ?t ds)) \<in> step_rel obs ^^ Suc (length ds)"
    by (rule relpow_Suc_I2)
  then show ?case by (simp add: walk_nonempty del: relpow.simps)
qed

lemma bfs_inv_init: "bfs_inv start target obs [\<lparr>qpoint = start, path = []\<rparr>] {start}"
  by (simp add: bfs_inv_def item_ok_def)

lemma item_ok_mono: "item_ok start obs vis it \<Longrightarrow> vis \<subseteq> vis' \<Longrightarrow> item_ok start obs vis' it"
  by (auto simp: item_ok_def)

lemma item_ok_point: "item_ok start obs vis it \<Longrightarrow> qpoint it \<in> vis"
  by (metis item_ok_def last_in_set subsetD walk_nonempty)

lemma item_ok_reach:
  "item_ok start obs vis it \<Longrightarrow> (start, qpoint it) \<in> step_rel obs ^^ length (path it)"
  by (metis item_ok_def walk_relpow)

lemma bfs_inv_ConsD:
  assumes inv: "bfs_inv start target obs (item # queue) vis"
  shows "start \<in> vis"
    and "\<forall>it \<in> set (item # queue). item_ok start obs vis it"
    and "\<forall>v \<in> vis. (start, v) \<in> (step_rel obs)\<^sup>*"
    and "sorted (map (\<lambda>it. length (path it)) (item # queue))"
    and "\<forall>it \<in> set (item # queue). length (path it) \<le> Suc (length (path item))"
    and "\<forall>u \<in> vis - qpoint ` set (item # queue). u \<noteq> target \<and> (\<forall>v. (u, v) \<in> step_rel obs \<longrightarrow> v \<in> vis)"
    and "\<forall>v n. n \<le> length (path item) \<longrightarrow> (start, v) \<in> step_rel obs ^^ n \<longrightarrow> v \<in> vis"
proof -
  from inv have raw: "start \<in> vis"
     "\<forall>it \<in> set (item # queue). item_ok start obs vis it"
     "\<forall>v \<in> vis. (start, v) \<in> (step_rel obs)\<^sup>*"
     "sorted (map (\<lambda>it. length (path it)) (item # queue))"
     "\<forall>it \<in> set (item # queue). length (path it) \<le> Suc (length (path (hd (item # queue))))"
     "\<forall>u \<in> vis - qpoint ` set (item # queue). u \<noteq> target \<and> (\<forall>v. (u, v) \<in> step_rel obs \<longrightarrow> v \<in> vis)"
     "\<forall>v n. item # queue \<noteq> [] \<longrightarrow> n \<le> length (path (hd (item # queue))) \<longrightarrow> (start, v) \<in> step_rel obs ^^ n \<longrightarrow> v \<in> vis"
    unfolding bfs_inv_def by - (elim conjE, assumption)+
  show "start \<in> vis" by (rule raw(1))
  show "\<forall>it \<in> set (item # queue). item_ok start obs vis it" by (rule raw(2))
  show "\<forall>v \<in> vis. (start, v) \<in> (step_rel obs)\<^sup>*" by (rule raw(3))
  show "sorted (map (\<lambda>it. length (path it)) (item # queue))" by (rule raw(4))
  show "\<forall>it \<in> set (item # queue). length (path it) \<le> Suc (length (path item))"
    using raw(5) unfolding list.sel .
  show "\<forall>u \<in> vis - qpoint ` set (item # queue). u \<noteq> target \<and> (\<forall>v. (u, v) \<in> step_rel obs \<longrightarrow> v \<in> vis)"
    by (rule raw(6))
  show "\<forall>v n. n \<le> length (path item) \<longrightarrow> (start, v) \<in> step_rel obs ^^ n \<longrightarrow> v \<in> vis"
    using raw(7) unfolding list.sel by blast
qed


lemma bfs_inv_step:
  assumes inv: "bfs_inv start target obs (item # queue) vis"
    and nt: "qpoint item \<noteq> target"
  defines "N \<equiv> getNeighbors (qpoint item) obs"
  defines "new \<equiv> filter (\<lambda>n. point n \<notin> vis) N"
  defines "mk \<equiv> (\<lambda>n. \<lparr>qpoint = point n, path = path item @ [direction n]\<rparr>)"
  shows "bfs_inv start target obs (queue @ map mk new) (vis \<union> point ` set N)"
proof -
  let ?u = "qpoint item"
  let ?L = "length (path item)"
  let ?q' = "queue @ map mk new"
  let ?vis' = "vis \<union> point ` set N"
  let ?E = "step_rel obs"
  note d = bfs_inv_ConsD [OF inv]
  note start = d(1) and items = d(2) and reach = d(3) and srt = d(4) and bound = d(5)
    and closed = d(6) and front = d(7)
  have item: "item_ok start obs vis item" using items by simp
  have u_vis: "?u \<in> vis" by (rule item_ok_point [OF item])
  have N_step: "\<And>v. v \<in> point ` set N \<longleftrightarrow> (?u, v) \<in> ?E"
    by (simp add: N_def step_rel_iff)
  have len_ge: "\<forall>it \<in> set queue. ?L \<le> length (path it)"
    using srt by auto
  \<comment> \<open>the new items\<close>
  have new_ok: "item_ok start obs ?vis' (mk n)" if n: "n \<in> set new" for n
  proof -
    from n have nN: "n \<in> set N" and nv: "point n \<notin> vis" by (auto simp: new_def)
    from nN have pn: "point n = applyDirection ?u (direction n)" "inBounds (point n)" "point n \<notin> obs"
      by (auto simp: N_def getNeighbors_iff)
    from item have w: "last (walk start (path item)) = ?u"
      and fr: "\<forall>c \<in> set (tl (walk start (path item))). inBounds c \<and> c \<notin> obs"
      and di: "distinct (walk start (path item))"
      and sub: "set (walk start (path item)) \<subseteq> vis"
      by (auto simp: item_ok_def)
    have wk: "walk start (path item @ [direction n]) = walk start (path item) @ [point n]"
      by (simp add: walk_snoc w pn(1))
    have min: "\<forall>k < Suc ?L. (start, point n) \<notin> ?E ^^ k"
      using front nv by (metis less_Suc_eq_le)
    have pin: "point n \<in> point ` set N" using nN by simp
    show ?thesis
      unfolding item_ok_def mk_def
      using wk fr di sub nv pn(2,3) min pin
      by (auto simp: walk_nonempty simp del: relpow.simps)
  qed
  have c1: "start \<in> ?vis'" using start by simp
  have c2: "\<forall>it \<in> set ?q'. item_ok start obs ?vis' it"
    using items new_ok by (auto intro: item_ok_mono)
  have c3: "\<forall>v \<in> ?vis'. (start, v) \<in> ?E\<^sup>*"
  proof
    fix v assume "v \<in> ?vis'"
    then show "(start, v) \<in> ?E\<^sup>*"
    proof
      assume "v \<in> vis" then show ?thesis using reach by simp
    next
      assume "v \<in> point ` set N"
      then have "(?u, v) \<in> ?E" by (simp add: N_step)
      moreover have "(start, ?u) \<in> ?E\<^sup>*" using reach u_vis by simp
      ultimately show ?thesis by (rule rtrancl_into_rtrancl [rotated])
    qed
  qed
  have lens: "map (\<lambda>it. length (path it)) (map mk new) = replicate (length new) (Suc ?L)"
    by (simp add: mk_def comp_def map_replicate_const)
  have c4: "sorted (map (\<lambda>it. length (path it)) ?q')"
    using srt bound unfolding map_append lens by (auto simp: sorted_append)
  have hd_ge: "?q' \<noteq> [] \<Longrightarrow> ?L \<le> length (path (hd ?q'))"
    using len_ge by (cases queue; cases new) (auto simp: mk_def)
  have c5: "\<forall>it \<in> set ?q'. length (path it) \<le> Suc (length (path (hd ?q')))"
  proof
    fix it assume it: "it \<in> set ?q'"
    then have "?q' \<noteq> []" by auto
    then have "?L \<le> length (path (hd ?q'))" by (rule hd_ge)
    moreover have "length (path it) \<le> Suc ?L"
      using it bound by (auto simp: mk_def)
    ultimately show "length (path it) \<le> Suc (length (path (hd ?q')))" by simp
  qed
  have c6: "\<forall>u \<in> ?vis' - qpoint ` set ?q'. u \<noteq> target \<and> (\<forall>v. (u, v) \<in> ?E \<longrightarrow> v \<in> ?vis')"
  proof
    fix w assume w: "w \<in> ?vis' - qpoint ` set ?q'"
    have wv: "w \<in> vis"
    proof (rule ccontr)
      assume "w \<notin> vis"
      with w obtain n where "n \<in> set N" "point n = w" by auto
      with \<open>w \<notin> vis\<close> have "n \<in> set new" by (simp add: new_def)
      then have "w \<in> qpoint ` set ?q'" using \<open>point n = w\<close> by (force simp: mk_def)
      with w show False by simp
    qed
    show "w \<noteq> target \<and> (\<forall>v. (w, v) \<in> ?E \<longrightarrow> v \<in> ?vis')"
    proof (cases "w = ?u")
      case True
      then show ?thesis using nt N_step by simp
    next
      case False
      with w wv have "w \<in> vis - qpoint ` set (item # queue)" by auto
      then show ?thesis using closed by blast
    qed
  qed
  have c7: "\<forall>v n. ?q' \<noteq> [] \<longrightarrow> n \<le> length (path (hd ?q')) \<longrightarrow> (start, v) \<in> ?E ^^ n \<longrightarrow> v \<in> ?vis'"
  proof (intro allI impI)
    fix v n
    assume ne: "?q' \<noteq> []" and n: "n \<le> length (path (hd ?q'))" and r: "(start, v) \<in> ?E ^^ n"
    have hdq: "hd ?q' \<in> set ?q'" using ne by (rule hd_in_set)
    have hd_le: "length (path (hd ?q')) \<le> Suc ?L"
      using hdq bound by (auto simp: mk_def)
    have hd_min: "\<forall>it \<in> set ?q'. length (path (hd ?q')) \<le> length (path it)"
      using c4 ne by (cases ?q') auto
    show "v \<in> ?vis'"
    proof (cases "n \<le> ?L")
      case True
      then show ?thesis using front r by blast
    next
      case False
      with n hd_le have n_eq: "n = Suc ?L" and hd_eq: "length (path (hd ?q')) = Suc ?L" by auto
      from r n_eq obtain w where sw: "(start, w) \<in> ?E ^^ ?L" and wv: "(w, v) \<in> ?E"
        by auto
      have w_vis: "w \<in> vis" using front sw by blast
      have "w \<notin> qpoint ` set ?q'"
      proof
        assume "w \<in> qpoint ` set ?q'"
        then obtain it where it: "it \<in> set ?q'" "qpoint it = w" by auto
        then have "Suc ?L \<le> length (path it)" using hd_min hd_eq by auto
        moreover have "item_ok start obs ?vis' it" using c2 it by simp
        ultimately have "(start, w) \<notin> ?E ^^ ?L"
          using it(2) by (auto simp: item_ok_def simp del: relpow.simps)
        with sw show False by simp
      qed
      with w_vis have "w \<in> ?vis' - qpoint ` set ?q'" by simp
      then show ?thesis using c6 wv by blast
    qed
  qed
  show ?thesis
    unfolding bfs_inv_def using c1 c2 c3 c4 c5 c6 c7 by blast
qed

lemma bfs_inv_closed:
  assumes "bfs_inv start target obs [] vis"
  shows "(start, target) \<notin> (step_rel obs)\<^sup>*"
proof
  assume r: "(start, target) \<in> (step_rel obs)\<^sup>*"
  from assms have start: "start \<in> vis"
    and closed: "\<forall>u \<in> vis. u \<noteq> target \<and> (\<forall>v. (u, v) \<in> step_rel obs \<longrightarrow> v \<in> vis)"
    by (simp_all add: bfs_inv_def)
  from r have "target \<in> vis"
    by (induction rule: rtrancl_induct) (use start closed in blast)+
  with closed show False by blast
qed

lemma getPath_while_correct:
  "bfs_inv start target obs queue vis \<Longrightarrow>
   (case getPath_while target obs queue vis of
      None \<Rightarrow> (start, target) \<notin> (step_rel obs)\<^sup>*
    | Some ds \<Rightarrow> item_ok start obs UNIV \<lparr>qpoint = target, path = ds\<rparr>)"
proof (induction target obs queue vis rule: getPath_while.induct)
  case (1 target obstacleSet visited)
  then show ?case by (simp add: bfs_inv_closed)
next
  case (2 target obstacleSet item queue visited)
  show ?case
  proof (cases "qpoint item = target")
    case True
    from "2.prems" have "item_ok start obstacleSet visited item"
      by (simp add: bfs_inv_def)
    then have "item_ok start obstacleSet UNIV item"
      by (rule item_ok_mono) simp
    then have "item_ok start obstacleSet UNIV \<lparr>qpoint = target, path = path item\<rparr>"
      using True by (simp add: item_ok_def)
    then show ?thesis using True by (simp add: isSamePoint_iff)
  next
    case False
    let ?N = "getNeighbors (qpoint item) obstacleSet"
    have step: "getPath_for ?N (path item) (visited, queue) =
        (visited \<union> point ` set ?N,
         queue @ map (\<lambda>n. \<lparr>qpoint = point n, path = path item @ [direction n]\<rparr>)
                   (filter (\<lambda>n. point n \<notin> visited) ?N))"
      by (rule getPath_for_eq [OF getNeighbors_distinct])
    have "bfs_inv start target obstacleSet
            (queue @ map (\<lambda>n. \<lparr>qpoint = point n, path = path item @ [direction n]\<rparr>)
                   (filter (\<lambda>n. point n \<notin> visited) ?N))
            (visited \<union> point ` set ?N)"
      by (rule bfs_inv_step [OF "2.prems" False])
    from "2.IH" [OF _ step [symmetric] this] False
    show ?thesis by (simp add: isSamePoint_iff step)
  qed
qed

section \<open>Correctness of the flood fill\<close>

lemma nexts_step:
  "v \<in> {n \<in> set [\<lparr>px = px c, py = py c - 1\<rparr>, \<lparr>px = px c, py = py c + 1\<rparr>,
                   \<lparr>px = px c - 1, py = py c\<rparr>, \<lparr>px = px c + 1, py = py c\<rparr>].
          \<not> offBoard n \<and> n \<notin> obs} \<longleftrightarrow> (c, v) \<in> step_rel obs"
proof -
  have "(\<exists>d. v = applyDirection c d) \<longleftrightarrow>
        v \<in> set [\<lparr>px = px c, py = py c - 1\<rparr>, \<lparr>px = px c, py = py c + 1\<rparr>,
                  \<lparr>px = px c - 1, py = py c\<rparr>, \<lparr>px = px c + 1, py = py c\<rparr>]"
  proof
    assume "\<exists>d. v = applyDirection c d"
    then obtain d where "v = applyDirection c d" ..
    then show "v \<in> set [\<lparr>px = px c, py = py c - 1\<rparr>, \<lparr>px = px c, py = py c + 1\<rparr>,
                  \<lparr>px = px c - 1, py = py c\<rparr>, \<lparr>px = px c + 1, py = py c\<rparr>]"
      by (cases d) simp_all
  next
    assume "v \<in> set [\<lparr>px = px c, py = py c - 1\<rparr>, \<lparr>px = px c, py = py c + 1\<rparr>,
                  \<lparr>px = px c - 1, py = py c\<rparr>, \<lparr>px = px c + 1, py = py c\<rparr>]"
    then have "v = applyDirection c UP \<or> v = applyDirection c DOWN
        \<or> v = applyDirection c LEFT \<or> v = applyDirection c RIGHT" by simp
    then show "\<exists>d. v = applyDirection c d" by blast
  qed
  then show ?thesis by (auto simp: step_rel_def offBoard_iff)
qed

lemma flood_invD:
  assumes "flood_inv start obs queue vis count"
  shows "start \<in> vis" and "finite vis" and "distinct queue" and "set queue \<subseteq> vis"
    and "count = int (card (vis - set queue))"
    and "\<forall>v \<in> vis. (start, v) \<in> (step_rel obs)\<^sup>*"
    and "\<forall>u \<in> vis - set queue. \<forall>v. (u, v) \<in> step_rel obs \<longrightarrow> v \<in> vis"
  using assms unfolding flood_inv_def by - (elim conjE, assumption)+

lemma flood_inv_init: "flood_inv start obs [start] {start} 0"
  by (simp add: flood_inv_def)

lemma flood_inv_step:
  assumes inv: "flood_inv start obs (c # queue) vis count"
  defines "nexts \<equiv> [\<lparr>px = px c, py = py c - 1\<rparr>, \<lparr>px = px c, py = py c + 1\<rparr>,
                     \<lparr>px = px c - 1, py = py c\<rparr>, \<lparr>px = px c + 1, py = py c\<rparr>]"
  defines "S \<equiv> {n \<in> set nexts. \<not> offBoard n \<and> n \<notin> obs}"
  defines "new \<equiv> filter (\<lambda>n. \<not> offBoard n \<and> n \<notin> vis \<and> n \<notin> obs) nexts"
  shows "flood_inv start obs (queue @ new) (vis \<union> S) (count + 1)"
proof -
  note d = flood_invD [OF inv]
  have S_step: "\<And>v. v \<in> S \<longleftrightarrow> (c, v) \<in> step_rel obs"
    unfolding S_def nexts_def by (rule nexts_step)
  have new_set: "set new = S - vis" by (auto simp: new_def S_def)
  have c_vis: "c \<in> vis" and c_notin: "c \<notin> set queue" and dq: "distinct queue"
    and q_sub: "set queue \<subseteq> vis"
    using d(3,4) by auto
  have dnew: "distinct new" unfolding new_def nexts_def by (intro distinct_filter nexts_distinct)
  have c1: "start \<in> vis \<union> S" using d(1) by simp
  have c2: "finite (vis \<union> S)" using d(2) by (simp add: S_def)
  have c3: "distinct (queue @ new)" using dq dnew q_sub new_set by auto
  have c4: "set (queue @ new) \<subseteq> vis \<union> S" using q_sub new_set by auto
  have eq: "(vis \<union> S) - set (queue @ new) = insert c (vis - set (c # queue))"
    using new_set c_vis c_notin by auto
  have "card ((vis \<union> S) - set (queue @ new)) = Suc (card (vis - set (c # queue)))"
    unfolding eq using d(2) by (subst card_insert_disjoint) auto
  then have c5: "count + 1 = int (card ((vis \<union> S) - set (queue @ new)))"
    using d(5) by simp
  have c6: "\<forall>v \<in> vis \<union> S. (start, v) \<in> (step_rel obs)\<^sup>*"
  proof
    fix v assume "v \<in> vis \<union> S"
    then show "(start, v) \<in> (step_rel obs)\<^sup>*"
    proof
      assume "v \<in> vis" then show ?thesis using d(6) by simp
    next
      assume "v \<in> S"
      then have "(c, v) \<in> step_rel obs" by (simp add: S_step)
      moreover have "(start, c) \<in> (step_rel obs)\<^sup>*" using d(6) c_vis by simp
      ultimately show ?thesis by (rule rtrancl_into_rtrancl [rotated])
    qed
  qed
  have c7: "\<forall>u \<in> (vis \<union> S) - set (queue @ new). \<forall>v. (u, v) \<in> step_rel obs \<longrightarrow> v \<in> vis \<union> S"
  proof (intro ballI allI impI)
    fix u v assume u: "u \<in> (vis \<union> S) - set (queue @ new)" and uv: "(u, v) \<in> step_rel obs"
    from u have "u = c \<or> u \<in> vis - set (c # queue)" unfolding eq by simp
    then show "v \<in> vis \<union> S"
    proof
      assume "u = c" then show ?thesis using uv S_step by simp
    next
      assume "u \<in> vis - set (c # queue)"
      then show ?thesis using d(7) uv by blast
    qed
  qed
  show ?thesis unfolding flood_inv_def
    using c1 c2 c3 c4 c5 c6 c7 by (intro conjI)
qed

lemma reachable_finite: "finite {v. (start, v) \<in> (step_rel obs)\<^sup>*}"
proof -
  have "{v. (start, v) \<in> (step_rel obs)\<^sup>*} \<subseteq> insert start {p. \<not> offBoard p}"
  proof
    fix v assume "v \<in> {v. (start, v) \<in> (step_rel obs)\<^sup>*}"
    then have "(start, v) \<in> (step_rel obs)\<^sup>*" by simp
    then show "v \<in> insert start {p. \<not> offBoard p}"
      by (cases rule: rtranclE) (auto simp: step_rel_def offBoard_iff)
  qed
  then show ?thesis by (rule finite_subset) (simp add: finite_board)
qed

lemma flood_inv_done:
  assumes "flood_inv start obs [] vis count"
  shows "count = int (card {v. (start, v) \<in> (step_rel obs)\<^sup>*})"
proof -
  note d = flood_invD [OF assms]
  have "v \<in> vis" if "(start, v) \<in> (step_rel obs)\<^sup>*" for v
    using that by (induction rule: rtrancl_induct) (use d(1,7) in auto)
  then have "vis = {v. (start, v) \<in> (step_rel obs)\<^sup>*}" using d(6) by auto
  then show ?thesis using d(5) by simp
qed

lemma getAccessibleAreaSize_while_correct:
  "flood_inv start obs queue vis count \<Longrightarrow>
   getAccessibleAreaSize_while obs queue vis count = int (card {v. (start, v) \<in> (step_rel obs)\<^sup>*})"
proof (induction obs queue vis count rule: getAccessibleAreaSize_while.induct)
  case (1 obstacleSet visited count)
  then show ?case by (simp add: flood_inv_done)
next
  case (2 obstacleSet current queue visited count)
  let ?nexts = "[\<lparr>px = px current, py = py current - 1\<rparr>, \<lparr>px = px current, py = py current + 1\<rparr>,
                 \<lparr>px = px current - 1, py = py current\<rparr>, \<lparr>px = px current + 1, py = py current\<rparr>]"
  have step: "getAccessibleAreaSize_for ?nexts obstacleSet (visited, queue) =
      (visited \<union> {n \<in> set ?nexts. \<not> offBoard n \<and> n \<notin> obstacleSet},
       queue @ filter (\<lambda>n. \<not> offBoard n \<and> n \<notin> visited \<and> n \<notin> obstacleSet) ?nexts)"
    by (rule getAccessibleAreaSize_for_eq [OF nexts_distinct])
  have "flood_inv start obstacleSet
          (queue @ filter (\<lambda>n. \<not> offBoard n \<and> n \<notin> visited \<and> n \<notin> obstacleSet) ?nexts)
          (visited \<union> {n \<in> set ?nexts. \<not> offBoard n \<and> n \<notin> obstacleSet}) (count + 1)"
    by (rule flood_inv_step [OF "2.prems"])
  from "2.IH" [OF refl step [symmetric] this]
  show ?case by (simp only: getAccessibleAreaSize_while.simps Let_def step prod.case)
qed

lemma getAccessibleAreaSize_eq:
  "getAccessibleAreaSize start obs = int (card {v. (start, v) \<in> (step_rel obs)\<^sup>*})"
  unfolding getAccessibleAreaSize_def
  by (rule getAccessibleAreaSize_while_correct [OF flood_inv_init])

lemma getAccessibleAreaSize_pos: "1 \<le> getAccessibleAreaSize start obs"
proof -
  have "start \<in> {v. (start, v) \<in> (step_rel obs)\<^sup>*}" by simp
  then have "0 < card {v. (start, v) \<in> (step_rel obs)\<^sup>*}"
    using reachable_finite [of start obs] by (metis card_gt_0_iff empty_iff)
  then show ?thesis by (simp add: getAccessibleAreaSize_eq)
qed

lemma free_start_rtrancl:
  assumes "inBounds start" "start \<notin> obs"
  shows "(start, v) \<in> (step_rel obs)\<^sup>* \<longleftrightarrow> (start, v) \<in> (grid_graph obs)\<^sup>*"
proof
  assume "(start, v) \<in> (step_rel obs)\<^sup>*"
  then have "(start, v) \<in> (grid_graph obs)\<^sup>* \<and> inBounds v \<and> v \<notin> obs"
  proof (induction rule: rtrancl_induct)
    case base
    then show ?case using assms by simp
  next
    case (step y z)
    then have "(y, z) \<in> grid_graph obs" by (auto simp: grid_graph_def step_rel_def)
    then show ?case using step by (auto simp: step_rel_def)
  qed
  then show "(start, v) \<in> (grid_graph obs)\<^sup>*" by simp
next
  have "grid_graph obs \<subseteq> step_rel obs" by (auto simp: grid_graph_def step_rel_def)
  then have "(grid_graph obs)\<^sup>* \<subseteq> (step_rel obs)\<^sup>*" by (rule rtrancl_mono)
  moreover assume "(start, v) \<in> (grid_graph obs)\<^sup>*"
  ultimately show "(start, v) \<in> (step_rel obs)\<^sup>*" by blast
qed

section \<open>Results on the searches\<close>

lemma free_start_relpow:
  assumes "inBounds start" "start \<notin> obs"
  shows "(start, v) \<in> step_rel obs ^^ n \<longleftrightarrow> (start, v) \<in> grid_graph obs ^^ n"
proof
  assume "(start, v) \<in> step_rel obs ^^ n"
  then have "(start, v) \<in> grid_graph obs ^^ n \<and> inBounds v \<and> v \<notin> obs"
  proof (induction n arbitrary: v)
    case 0
    then show ?case using assms by simp
  next
    case (Suc n)
    then obtain w where w: "(start, w) \<in> step_rel obs ^^ n" "(w, v) \<in> step_rel obs" by auto
    from Suc.IH [OF w(1)] w(2) have "(w, v) \<in> grid_graph obs"
      by (auto simp: grid_graph_def step_rel_def)
    then show ?case using Suc.IH [OF w(1)] w(2) by (auto simp: step_rel_def)
  qed
  then show "(start, v) \<in> grid_graph obs ^^ n" by simp
next
  have sub: "grid_graph obs \<subseteq> step_rel obs" by (auto simp: grid_graph_def step_rel_def)
  assume "(start, v) \<in> grid_graph obs ^^ n"
  then show "(start, v) \<in> step_rel obs ^^ n"
  proof (induction n arbitrary: v)
    case 0
    then show ?case by simp
  next
    case (Suc n)
    then obtain w where w: "(start, w) \<in> grid_graph obs ^^ n" "(w, v) \<in> grid_graph obs" by auto
    from Suc.IH [OF w(1)] w(2) sub show ?case by auto
  qed
qed

lemma getPath_item_ok:
  "case getPath start goal obs of
     None \<Rightarrow> (start, goal) \<notin> (step_rel obs)\<^sup>*
   | Some ds \<Rightarrow> item_ok start obs UNIV \<lparr>qpoint = goal, path = ds\<rparr>"
  unfolding getPath_def by (rule getPath_while_correct [OF bfs_inv_init])

lemma getPath_Some_props:
  assumes "getPath start goal obs = Some ds"
  shows "last (walk start ds) = goal"
    and "\<forall>c \<in> set (tl (walk start ds)). inBounds c \<and> c \<notin> obs"
    and "distinct (walk start ds)"
    and "(start, goal) \<in> step_rel obs ^^ length ds"
    and "\<And>n. (start, goal) \<in> step_rel obs ^^ n \<Longrightarrow> length ds \<le> n"
proof -
  from getPath_item_ok [of start goal obs] assms
  have ok: "item_ok start obs UNIV \<lparr>qpoint = goal, path = ds\<rparr>" by simp
  then show l: "last (walk start ds) = goal"
    and f: "\<forall>c \<in> set (tl (walk start ds)). inBounds c \<and> c \<notin> obs"
    and "distinct (walk start ds)"
    by (simp_all add: item_ok_def del: relpow.simps)
  from walk_relpow [OF f] l show "(start, goal) \<in> step_rel obs ^^ length ds" by simp
  from ok have m: "\<forall>n < length ds. (start, goal) \<notin> step_rel obs ^^ n"
    by (simp add: item_ok_def del: relpow.simps)
  show "\<And>n. (start, goal) \<in> step_rel obs ^^ n \<Longrightarrow> length ds \<le> n"
    using m by (meson not_le)
qed

lemma getPath_None_iff: "getPath start goal obs = None \<longleftrightarrow> (start, goal) \<notin> (step_rel obs)\<^sup>*"
proof (cases "getPath start goal obs")
  case None
  then show ?thesis using getPath_item_ok [of start goal obs] by simp
next
  case (Some ds)
  from getPath_Some_props(4) [OF Some] have "(start, goal) \<in> (step_rel obs)\<^sup>*"
    by (rule relpow_imp_rtrancl)
  then show ?thesis using Some by simp
qed

lemma getPath_self: "getPath start start obs = Some []"
  by (simp add: getPath_def isSamePoint_iff)

lemma getPath_dist:
  assumes "getPath start goal obs = Some ds"
  shows "length ds = graph_dist obs start goal"
  unfolding graph_dist_def
  using getPath_Some_props(4,5) [OF assms] by (intro Least_equality [symmetric]) auto

section \<open>The steps of the decision policy\<close>

lemma Point_fields_eq: "px p = px q \<and> py p = py q \<longleftrightarrow> (p::Point) = q"
  by (cases p; cases q) simp

lemma possibleMoves_eq: "possibleMoves h = map (moveOf h) enumeration"
  by (simp add: possibleMoves_def moveOf_def enumeration_def)

lemma moveOf_point: "\<lparr>px = mx (moveOf h d), py = my (moveOf h d)\<rparr> = applyDirection h d"
  by (simp add: moveOf_def)

lemma moveOf_dir: "dir (moveOf h d) = d"
  by (simp add: moveOf_def)

lemma validMoves_pred:
  assumes "snake \<noteq> []"
  shows "(if mx (moveOf (hd snake) d) < 0 \<or> mx (moveOf (hd snake) d) \<ge> BOARD_WIDTH
             \<or> my (moveOf (hd snake) d) < 0 \<or> my (moveOf (hd snake) d) \<ge> BOARD_HEIGHT then False
          else if (case (if length snake > 1 then Some (snake ! 1) else None) of
                     None \<Rightarrow> False
                   | Some nk \<Rightarrow> mx (moveOf (hd snake) d) = px nk \<and> my (moveOf (hd snake) d) = py nk)
          then False
          else if list_ex (\<lambda>p. px p = mx (moveOf (hd snake) d) \<and> py p = my (moveOf (hd snake) d))
                    (slice_0_m1 snake) then False
          else True) \<longleftrightarrow> isCandidate snake d"
proof -
  let ?c = "applyDirection (hd snake) d"
  have a: "mx (moveOf (hd snake) d) = px ?c" "my (moveOf (hd snake) d) = py ?c"
    by (simp_all add: moveOf_def)
  have b: "list_ex (\<lambda>p. px p = px ?c \<and> py p = py ?c) (slice_0_m1 snake) \<longleftrightarrow> ?c \<in> set (butlast snake)"
    by (simp add: list_ex_iff slice_0_m1_butlast Point_fields_eq)
  have c: "(px ?c < 0 \<or> px ?c \<ge> BOARD_WIDTH \<or> py ?c < 0 \<or> py ?c \<ge> BOARD_HEIGHT) \<longleftrightarrow> \<not> inBounds ?c"
    by (auto simp: inBounds_def)
  show ?thesis
    unfolding a b c isCandidate_def by (auto simp: Point_fields_eq)
qed

lemma validMoves_eq:
  assumes "snake \<noteq> []"
  shows "validMoves snake = map (moveOf (hd snake)) (filter (isCandidate snake) enumeration)"
proof -
  have h: "snake ! 0 = hd snake" using assms by (simp add: hd_conv_nth)
  show ?thesis
    unfolding validMoves_def Let_def h possibleMoves_eq filter_map comp_def
      validMoves_pred [OF assms] ..
qed

lemma virtualSnake_eq: "virtualSnake snake food c = virtualBody (simulate snake c food)"
  by (simp add: virtualSnake_def simulate_def Let_def slice_0_m1_butlast Point_fields_eq)

lemma virtualSnake_nonempty: "virtualSnake snake food c \<noteq> []"
  by (simp add: virtualSnake_def Let_def)

lemma virtualTail_eq:
  "virtualSnake snake food c ! (length (virtualSnake snake food c) - 1) = virtualTail (simulate snake c food)"
proof -
  have "virtualSnake snake food c ! (length (virtualSnake snake food c) - 1) = last (virtualSnake snake food c)"
    by (simp add: last_conv_nth virtualSnake_nonempty)
  then show ?thesis by (simp add: virtualSnake_eq simulate_def Let_def)
qed

lemma obstacleSet_eq:
  "set (slice_0_m1 (virtualSnake snake food c)) = obstaclesExcludingTail (simulate snake c food)"
  by (simp add: virtualSnake_eq slice_0_m1_butlast simulate_def Let_def)

lemma safeMoves_for_step:
  "safeMoves_for (moveOf h d # rest) snake food acc =
     (if getPath (applyDirection h d) (virtualTail (simulate snake (applyDirection h d) food))
           (obstaclesExcludingTail (simulate snake (applyDirection h d) food)) \<noteq> None
      then safeMoves_for rest snake food
             (acc @ [\<lparr>sdir = d,
                      distToFood = map_option length
                        (getPath (applyDirection h d) food
                           (obstaclesExcludingTail (simulate snake (applyDirection h d) food))),
                      space = 0\<rparr>])
      else safeMoves_for rest snake food acc)"
proof -
  have m: "(case x of None \<Rightarrow> None | Some p \<Rightarrow> Some (length p)) = map_option length x"
    for x :: "Direction list option"
    by (cases x) simp_all
  show ?thesis
    unfolding safeMoves_for.simps Let_def moveOf_point virtualTail_eq obstacleSet_eq m moveOf_dir ..
qed

lemma safeMoves_for_eq:
  "safeMoves_for (map (moveOf (hd snake)) ds) snake food acc =
     acc @ map (mkSafe snake food) (filter (isSafe snake food) ds)"
proof (induction ds arbitrary: acc)
  case Nil
  then show ?case by simp
next
  case (Cons d ds)
  let ?c = "applyDirection (hd snake) d"
  have s: "getPath ?c (virtualTail (simulate snake ?c food))
             (obstaclesExcludingTail (simulate snake ?c food)) \<noteq> None \<longleftrightarrow> isSafe snake food d"
    by (simp add: isSafe_def Let_def)
  have k: "\<lparr>sdir = d,
            distToFood = map_option length
              (getPath ?c food (obstaclesExcludingTail (simulate snake ?c food))),
            space = 0\<rparr> = mkSafe snake food d"
    by (simp add: mkSafe_def distToTarget_def Let_def)
  show ?case
    unfolding list.map safeMoves_for_step Cons.IH s k by simp
qed

lemma hd_insort_key:
  "hd (insort_key f a ys) = (if ys = [] \<or> f a \<le> f (hd ys) then a else hd ys)"
  by (cases ys) auto

lemma sort_key_nonempty: "xs \<noteq> [] \<Longrightarrow> sort_key f xs \<noteq> []"
  by (cases xs) (auto simp: sort_key_def)

lemma hd_sort_key_first_min:
  fixes f :: "'a \<Rightarrow> nat" and r :: "'a \<Rightarrow> nat"
  assumes "sorted_wrt (\<lambda>a b. r a < r b) xs" "xs \<noteq> []"
  shows "hd (sort_key f xs) \<in> set xs \<and>
         (\<forall>y \<in> set xs. f (hd (sort_key f xs)) < f y \<or>
            (f (hd (sort_key f xs)) = f y \<and> r (hd (sort_key f xs)) \<le> r y))"
  using assms
proof (induction xs)
  case Nil
  then show ?case by simp
next
  case (Cons a xs)
  have sk: "sort_key f (a # xs) = insort_key f a (sort_key f xs)"
    by (simp add: sort_key_def)
  show ?case
  proof (cases "xs = []")
    case True
    then show ?thesis by (simp add: sort_key_def)
  next
    case False
    from Cons.prems have srt: "sorted_wrt (\<lambda>a b. r a < r b) xs" and lt: "\<forall>y \<in> set xs. r a < r y"
      by auto
    let ?m = "hd (sort_key f xs)"
    from Cons.IH [OF srt False] have m: "?m \<in> set xs"
      and mmin: "\<forall>y \<in> set xs. f ?m < f y \<or> (f ?m = f y \<and> r ?m \<le> r y)" by auto
    have ne: "sort_key f xs \<noteq> []" using False by (rule sort_key_nonempty)
    show ?thesis
    proof (cases "f a \<le> f ?m")
      case True
      then have h: "hd (sort_key f (a # xs)) = a" by (simp add: sk hd_insort_key)
      have "\<forall>y \<in> set xs. f a < f y \<or> (f a = f y \<and> r a \<le> r y)"
      proof
        fix y assume y: "y \<in> set xs"
        with mmin have "f ?m \<le> f y" by auto
        with True have "f a \<le> f y" by simp
        moreover have "r a < r y" using lt y by simp
        ultimately show "f a < f y \<or> (f a = f y \<and> r a \<le> r y)" by auto
      qed
      then show ?thesis unfolding h by simp
    next
      case False
      then have h: "hd (sort_key f (a # xs)) = ?m" using ne by (simp add: sk hd_insort_key)
      show ?thesis unfolding h using m mmin False by auto
    qed
  qed
qed

lemma enumeration_sorted: "sorted_wrt (\<lambda>a b. dir_rank a < dir_rank b) enumeration"
  by (simp add: enumeration_def)

lemma filter_enumeration_sorted:
  "sorted_wrt (\<lambda>a b. dir_rank a < dir_rank b) (filter P enumeration)"
  by (rule sorted_wrt_filter [OF enumeration_sorted])

lemma enumeration_all: "d \<in> set enumeration"
  by (cases d) (simp_all add: enumeration_def)

lemma find_moveOf:
  assumes "d \<in> set ds" "distinct ds"
  shows "find (\<lambda>vm. dir vm = d) (map (moveOf h) ds) = Some (moveOf h d)"
  using assms by (induction ds) (auto simp: moveOf_dir)

lemma strategyB_for_char:
  assumes "set ds \<subseteq> set cs" "distinct cs" "sorted_wrt (\<lambda>a b. dir_rank a < dir_rank b) ds"
  shows "\<exists>r. strategyB_for (map (mkSafe snake food) ds) (map (moveOf (hd snake)) cs) snake food (b, m) = Inr r \<and>
           (if \<forall>d \<in> set ds. spaceWithTail snake food d \<le> m then r = b
            else r \<in> set ds \<and> m < spaceWithTail snake food r \<and>
                 (\<forall>y \<in> set ds. spaceWithTail snake food y < spaceWithTail snake food r \<or>
                    (spaceWithTail snake food y = spaceWithTail snake food r \<and> dir_rank r \<le> dir_rank y)))"
  using assms
proof (induction ds arbitrary: b m)
  case Nil
  then show ?case by simp
next
  case (Cons d ds)
  let ?sp = "spaceWithTail snake food"
  from Cons.prems have dcs: "d \<in> set cs" and sub: "set ds \<subseteq> set cs"
    and srt: "sorted_wrt (\<lambda>a b. dir_rank a < dir_rank b) ds"
    and lt: "\<forall>y \<in> set ds. dir_rank d < dir_rank y" by auto
  have f: "find (\<lambda>vm. dir vm = sdir (mkSafe snake food d)) (map (moveOf (hd snake)) cs) = Some (moveOf (hd snake) d)"
    by (simp add: mkSafe_def find_moveOf [OF dcs Cons.prems(2)])
  have sp: "getAccessibleAreaSize \<lparr>px = mx (moveOf (hd snake) d), py = my (moveOf (hd snake) d)\<rparr>
              (set (virtualSnake snake food \<lparr>px = mx (moveOf (hd snake) d), py = my (moveOf (hd snake) d)\<rparr>))
            = ?sp d"
    by (simp add: moveOf_point virtualSnake_eq spaceWithTail_def Let_def)
  have step: "strategyB_for (map (mkSafe snake food) (d # ds)) (map (moveOf (hd snake)) cs) snake food (b, m) =
      (if ?sp d > m
       then strategyB_for (map (mkSafe snake food) ds) (map (moveOf (hd snake)) cs) snake food (d, ?sp d)
       else strategyB_for (map (mkSafe snake food) ds) (map (moveOf (hd snake)) cs) snake food (b, m))"
    unfolding list.map strategyB_for.simps f option.case Let_def sp
    by (simp add: mkSafe_def)
  show ?case
  proof (cases "?sp d > m")
    case True
    from Cons.IH [OF sub Cons.prems(2) srt, of d "?sp d"] obtain r where
      r: "strategyB_for (map (mkSafe snake food) ds) (map (moveOf (hd snake)) cs) snake food (d, ?sp d) = Inr r"
      and c: "if \<forall>y \<in> set ds. ?sp y \<le> ?sp d then r = d
            else r \<in> set ds \<and> ?sp d < ?sp r \<and>
                 (\<forall>y \<in> set ds. ?sp y < ?sp r \<or> (?sp y = ?sp r \<and> dir_rank r \<le> dir_rank y))"
      by blast
    have "r \<in> set (d # ds) \<and> m < ?sp r \<and>
          (\<forall>y \<in> set (d # ds). ?sp y < ?sp r \<or> (?sp y = ?sp r \<and> dir_rank r \<le> dir_rank y))"
    proof (cases "\<forall>y \<in> set ds. ?sp y \<le> ?sp d")
      case True
      with c have "r = d" by simp
      then show ?thesis using True \<open>?sp d > m\<close> lt by (auto simp: le_less)
    next
      case False
      with c have "r \<in> set ds" "?sp d < ?sp r"
        "\<forall>y \<in> set ds. ?sp y < ?sp r \<or> (?sp y = ?sp r \<and> dir_rank r \<le> dir_rank y)" by auto
      then show ?thesis using \<open>?sp d > m\<close> by auto
    qed
    moreover have "\<not> (\<forall>y \<in> set (d # ds). ?sp y \<le> m)" using True by auto
    ultimately show ?thesis unfolding step using True r by (simp del: set_simps; blast)
  next
    case False
    from Cons.IH [OF sub Cons.prems(2) srt, of b m] obtain r where
      r: "strategyB_for (map (mkSafe snake food) ds) (map (moveOf (hd snake)) cs) snake food (b, m) = Inr r"
      and c: "if \<forall>y \<in> set ds. ?sp y \<le> m then r = b
            else r \<in> set ds \<and> m < ?sp r \<and>
                 (\<forall>y \<in> set ds. ?sp y < ?sp r \<or> (?sp y = ?sp r \<and> dir_rank r \<le> dir_rank y))"
      by blast
    have "if \<forall>y \<in> set (d # ds). ?sp y \<le> m then r = b
          else r \<in> set (d # ds) \<and> m < ?sp r \<and>
               (\<forall>y \<in> set (d # ds). ?sp y < ?sp r \<or> (?sp y = ?sp r \<and> dir_rank r \<le> dir_rank y))"
    proof (cases "\<forall>y \<in> set ds. ?sp y \<le> m")
      case True
      with c False show ?thesis by auto
    next
      case F: False
      with c have "r \<in> set ds" "m < ?sp r"
        "\<forall>y \<in> set ds. ?sp y < ?sp r \<or> (?sp y = ?sp r \<and> dir_rank r \<le> dir_rank y)" by auto
      then show ?thesis using False F by auto
    qed
    then show ?thesis unfolding step using False r by (simp del: set_simps; blast)
  qed
qed

lemma strategyC_for_char:
  assumes "sorted_wrt (\<lambda>a b. dir_rank a < dir_rank b) ds"
  shows "if \<forall>d \<in> set ds. spaceEmergency snake d \<le> m
         then strategyC_for (map (moveOf (hd snake)) ds) snake (b, m) = b
         else \<exists>r \<in> set ds. strategyC_for (map (moveOf (hd snake)) ds) snake (b, m) = Some r \<and>
                m < spaceEmergency snake r \<and>
                (\<forall>y \<in> set ds. spaceEmergency snake y < spaceEmergency snake r \<or>
                   (spaceEmergency snake y = spaceEmergency snake r \<and> dir_rank r \<le> dir_rank y))"
  using assms
proof (induction ds arbitrary: b m)
  case Nil
  then show ?case by simp
next
  case (Cons d ds)
  let ?sp = "spaceEmergency snake"
  let ?C = "\<lambda>ds bm. strategyC_for (map (moveOf (hd snake)) ds) snake bm"
  from Cons.prems have srt: "sorted_wrt (\<lambda>a b. dir_rank a < dir_rank b) ds"
    and lt: "\<forall>y \<in> set ds. dir_rank d < dir_rank y" by auto
  have sp: "getAccessibleAreaSize \<lparr>px = mx (moveOf (hd snake) d), py = my (moveOf (hd snake) d)\<rparr>
              (set (slice_0_m1 snake)) = ?sp d"
    by (simp add: moveOf_point spaceEmergency_def slice_0_m1_butlast)
  have step: "?C (d # ds) (b, m) = (if ?sp d > m then ?C ds (Some d, ?sp d) else ?C ds (b, m))"
    unfolding list.map strategyC_for.simps Let_def sp moveOf_dir ..
  show ?case
  proof (cases "?sp d > m")
    case True
    note ih = Cons.IH [OF srt, of "?sp d" "Some d"]
    have "\<exists>r \<in> set (d # ds). ?C ds (Some d, ?sp d) = Some r \<and> m < ?sp r \<and>
            (\<forall>y \<in> set (d # ds). ?sp y < ?sp r \<or> (?sp y = ?sp r \<and> dir_rank r \<le> dir_rank y))"
    proof (cases "\<forall>y \<in> set ds. ?sp y \<le> ?sp d")
      case T: True
      with ih have "?C ds (Some d, ?sp d) = Some d" by simp
      then show ?thesis using T True lt by (auto simp: le_less)
    next
      case False
      with ih obtain r where "r \<in> set ds" "?C ds (Some d, ?sp d) = Some r" "?sp d < ?sp r"
        "\<forall>y \<in> set ds. ?sp y < ?sp r \<or> (?sp y = ?sp r \<and> dir_rank r \<le> dir_rank y)" by auto
      then show ?thesis using True by auto
    qed
    moreover have "\<not> (\<forall>y \<in> set (d # ds). ?sp y \<le> m)" using True by auto
    ultimately show ?thesis unfolding step using True by (simp del: set_simps; blast)
  next
    case False
    note ih = Cons.IH [OF srt, of m b]
    have "if \<forall>y \<in> set (d # ds). ?sp y \<le> m then ?C ds (b, m) = b
          else \<exists>r \<in> set (d # ds). ?C ds (b, m) = Some r \<and> m < ?sp r \<and>
               (\<forall>y \<in> set (d # ds). ?sp y < ?sp r \<or> (?sp y = ?sp r \<and> dir_rank r \<le> dir_rank y))"
    proof (cases "\<forall>y \<in> set ds. ?sp y \<le> m")
      case True
      with ih False show ?thesis by auto
    next
      case F: False
      with ih obtain r where "r \<in> set ds" "?C ds (b, m) = Some r" "m < ?sp r"
        "\<forall>y \<in> set ds. ?sp y < ?sp r \<or> (?sp y = ?sp r \<and> dir_rank r \<le> dir_rank y)" by auto
      then show ?thesis using False F by auto
    qed
    then show ?thesis unfolding step using False by (simp del: set_simps; blast)
  qed
qed

lemma getNextAutoMove_unfold:
  fixes snake :: "Point list" and food :: Point
  assumes "snake \<noteq> []"
  defines "cands \<equiv> filter (isCandidate snake) enumeration"
  defines "safe \<equiv> filter (isSafe snake food) cands"
  defines "tgt \<equiv> filter (\<lambda>d. distToTarget snake food d \<noteq> None) safe"
  shows "getNextAutoMove snake food =
    (if cands = [] then Inr None
     else if tgt \<noteq> []
     then Inr (Some (sdir (hd (sort_key (\<lambda>m. the (distToFood m)) (map (mkSafe snake food) tgt)))))
     else if safe \<noteq> []
     then (case strategyB_for (map (mkSafe snake food) safe) (map (moveOf (hd snake)) cands)
                  snake food (hd safe, - 1) of
             Inl e \<Rightarrow> Inl e
           | Inr bestDir \<Rightarrow> Inr (Some bestDir))
     else (case strategyC_for (map (moveOf (hd snake)) cands) snake (None, - 1) of
             Some d \<Rightarrow> Inr (Some d)
           | None \<Rightarrow> Inr (Some (hd cands))))"
proof -
  have v: "validMoves snake = map (moveOf (hd snake)) cands"
    unfolding cands_def by (rule validMoves_eq [OF assms(1)])
  have s: "safeMoves_for (map (moveOf (hd snake)) cands) snake food [] = map (mkSafe snake food) safe"
    unfolding safe_def by (simp add: safeMoves_for_eq)
  have w: "filter (\<lambda>m. distToFood m \<noteq> None) (map (mkSafe snake food) safe) = map (mkSafe snake food) tgt"
    unfolding tgt_def by (simp add: filter_map comp_def mkSafe_def)
  have n0: "xs ! 0 = hd xs" if "xs \<noteq> []" for xs :: "'a list"
    using that by (simp add: hd_conv_nth)
  show ?thesis
  proof (cases "cands = []")
    case True
    then show ?thesis unfolding getNextAutoMove_def Let_def v using assms(1) by simp
  next
    case c: False
    show ?thesis
    proof (cases "tgt = []")
      case False
      then have "sort_key (\<lambda>m. the (distToFood m)) (map (mkSafe snake food) tgt) \<noteq> []"
        by (intro sort_key_nonempty) simp
      then show ?thesis
        unfolding getNextAutoMove_def Let_def v s w using assms(1) c False
        by (simp add: n0)
    next
      case tge: True
      show ?thesis
      proof (cases "safe = []")
        case False
        then show ?thesis
          unfolding getNextAutoMove_def Let_def v s w using assms(1) c tge
          by (simp add: n0 hd_map mkSafe_def [of snake food "hd safe"])
      next
        case True
        have "dir (map (moveOf (hd snake)) cands ! 0) = hd cands"
          using c by (cases cands) (simp_all add: moveOf_dir)
        with True show ?thesis
          unfolding getNextAutoMove_def Let_def v s w using assms(1) c tge
          by (simp split: option.split)
      qed
    qed
  qed
qed

lemma cands_set: "d \<in> set (filter (isCandidate snake) enumeration) \<longleftrightarrow> isCandidate snake d"
  by (simp add: enumeration_all)

lemma in_set_nonempty: "x \<in> set xs \<Longrightarrow> xs \<noteq> []"
  by auto

lemma mkSafe_sel:
  "sdir (mkSafe snake food d) = d"
  "distToFood (mkSafe snake food d) = distToTarget snake food d"
  by (simp_all add: mkSafe_def)

lemma getNextAutoMove_none_iff:
  assumes "snake \<noteq> []"
  shows "getNextAutoMove snake food = Inr None \<longleftrightarrow> (\<forall>d. \<not> isCandidate snake d)"
proof -
  let ?cands = "filter (isCandidate snake) enumeration"
  have e: "?cands = [] \<longleftrightarrow> (\<forall>d. \<not> isCandidate snake d)"
    by (auto simp: filter_empty_conv enumeration_all)
  show ?thesis
    unfolding getNextAutoMove_unfold [OF assms] e [symmetric]
    by (auto split: sum.splits option.splits)
qed

lemma getNextAutoMove_tier1:
  assumes ne: "snake \<noteq> []"
    and ex: "\<exists>d. isCandidate snake d \<and> isSafe snake food d \<and> distToTarget snake food d \<noteq> None"
  shows "\<exists>d k. getNextAutoMove snake food = Inr (Some d) \<and>
           isCandidate snake d \<and> isSafe snake food d \<and> distToTarget snake food d = Some k \<and>
           (\<forall>d' k'. isCandidate snake d' \<and> isSafe snake food d' \<and> distToTarget snake food d' = Some k'
              \<longrightarrow> k < k' \<or> (k = k' \<and> dir_rank d \<le> dir_rank d'))"
proof -
  let ?cands = "filter (isCandidate snake) enumeration"
  let ?safe = "filter (isSafe snake food) ?cands"
  let ?tgt = "filter (\<lambda>d. distToTarget snake food d \<noteq> None) ?safe"
  let ?key = "\<lambda>m. the (distToFood m)"
  let ?xs = "map (mkSafe snake food) ?tgt"
  let ?x = "hd (sort_key ?key ?xs)"
  have mem: "d \<in> set ?tgt \<longleftrightarrow> isCandidate snake d \<and> isSafe snake food d \<and> distToTarget snake food d \<noteq> None" for d
    by (auto simp: enumeration_all)
  from ex obtain d1 where d1: "d1 \<in> set ?tgt" "d1 \<in> set ?cands" using mem cands_set by blast
  have tne: "?tgt \<noteq> []" by (rule in_set_nonempty [OF d1(1)])
  have cne: "?cands \<noteq> []" by (rule in_set_nonempty [OF d1(2)])
  have res: "getNextAutoMove snake food = Inr (Some (sdir ?x))"
    unfolding getNextAutoMove_unfold [OF ne] using tne cne by simp
  have "sorted_wrt (\<lambda>a b. dir_rank a < dir_rank b) ?tgt"
    by (intro sorted_wrt_filter enumeration_sorted)
  then have srt: "sorted_wrt (\<lambda>a b. dir_rank (sdir a) < dir_rank (sdir b)) ?xs"
    by (simp add: sorted_wrt_map mkSafe_sel)
  have xne: "?xs \<noteq> []" using tne by simp
  from hd_sort_key_first_min [OF srt xne, of ?key]
  have xin: "?x \<in> set ?xs"
    and xmin: "\<forall>y \<in> set ?xs. ?key ?x < ?key y \<or> (?key ?x = ?key y \<and> dir_rank (sdir ?x) \<le> dir_rank (sdir y))"
    by blast+
  from xin obtain d0 where d0: "d0 \<in> set ?tgt" and x: "?x = mkSafe snake food d0" by auto
  from d0 mem obtain k where p: "isCandidate snake d0" "isSafe snake food d0"
    and k: "distToTarget snake food d0 = Some k" by auto
  have "k < k' \<or> (k = k' \<and> dir_rank d0 \<le> dir_rank d')"
    if "isCandidate snake d' \<and> isSafe snake food d' \<and> distToTarget snake food d' = Some k'" for d' k'
  proof -
    from that have "d' \<in> set ?tgt" using mem by simp
    then have "mkSafe snake food d' \<in> set ?xs" by simp
    with xmin have "?key ?x < ?key (mkSafe snake food d') \<or>
        (?key ?x = ?key (mkSafe snake food d') \<and> dir_rank (sdir ?x) \<le> dir_rank (sdir (mkSafe snake food d')))"
      by blast
    then show ?thesis unfolding x mkSafe_sel using k that by simp
  qed
  then show ?thesis using res p k unfolding x mkSafe_sel by blast
qed

lemma spaceWithTail_pos: "1 \<le> spaceWithTail snake food d"
  by (simp add: spaceWithTail_def Let_def getAccessibleAreaSize_pos)

lemma spaceEmergency_pos: "1 \<le> spaceEmergency snake d"
  by (simp add: spaceEmergency_def getAccessibleAreaSize_pos)

lemma getNextAutoMove_tier2:
  assumes ne: "snake \<noteq> []"
    and ex: "\<exists>d. isCandidate snake d \<and> isSafe snake food d"
    and no: "\<forall>d. isCandidate snake d \<and> isSafe snake food d \<longrightarrow> distToTarget snake food d = None"
  shows "\<exists>d. getNextAutoMove snake food = Inr (Some d) \<and>
           isCandidate snake d \<and> isSafe snake food d \<and>
           (\<forall>d'. isCandidate snake d' \<and> isSafe snake food d' \<longrightarrow>
              spaceWithTail snake food d' < spaceWithTail snake food d \<or>
              (spaceWithTail snake food d' = spaceWithTail snake food d \<and> dir_rank d \<le> dir_rank d'))"
proof -
  let ?cands = "filter (isCandidate snake) enumeration"
  let ?safe = "filter (isSafe snake food) ?cands"
  let ?tgt = "filter (\<lambda>d. distToTarget snake food d \<noteq> None) ?safe"
  let ?sp = "spaceWithTail snake food"
  have mem: "d \<in> set ?safe \<longleftrightarrow> isCandidate snake d \<and> isSafe snake food d" for d
    by (auto simp: enumeration_all)
  from ex obtain d1 where d1: "d1 \<in> set ?safe" and d1c: "d1 \<in> set ?cands"
    using mem cands_set by blast
  have sne: "?safe \<noteq> []" by (rule in_set_nonempty [OF d1])
  have cne: "?cands \<noteq> []" by (rule in_set_nonempty [OF d1c])
  have te: "?tgt = []" using no by (auto simp: filter_empty_conv)
  have res: "getNextAutoMove snake food =
      (case strategyB_for (map (mkSafe snake food) ?safe) (map (moveOf (hd snake)) ?cands)
                  snake food (hd ?safe, - 1) of
         Inl e \<Rightarrow> Inl e | Inr bestDir \<Rightarrow> Inr (Some bestDir))"
    unfolding getNextAutoMove_unfold [OF ne] using te sne cne by simp
  have sub: "set ?safe \<subseteq> set ?cands" by auto
  have dc: "distinct ?cands" by (simp add: enumeration_def)
  have srt: "sorted_wrt (\<lambda>a b. dir_rank a < dir_rank b) ?safe"
    by (intro sorted_wrt_filter enumeration_sorted)
  have nall: "\<not> (\<forall>d \<in> set ?safe. ?sp d \<le> - 1)"
    using d1 spaceWithTail_pos [of snake food d1] by force
  from strategyB_for_char [OF sub dc srt, of snake food "hd ?safe" "- 1"] nall
  obtain r where r: "strategyB_for (map (mkSafe snake food) ?safe) (map (moveOf (hd snake)) ?cands)
                  snake food (hd ?safe, - 1) = Inr r"
    and rin: "r \<in> set ?safe"
    and rmax: "\<forall>y \<in> set ?safe. ?sp y < ?sp r \<or> (?sp y = ?sp r \<and> dir_rank r \<le> dir_rank y)"
    by (metis (no_types, lifting))
  have "getNextAutoMove snake food = Inr (Some r)" unfolding res r by simp
  moreover have "isCandidate snake r \<and> isSafe snake food r" using rin mem by simp
  moreover have "\<forall>d'. isCandidate snake d' \<and> isSafe snake food d' \<longrightarrow>
      ?sp d' < ?sp r \<or> (?sp d' = ?sp r \<and> dir_rank r \<le> dir_rank d')"
    using rmax mem by blast
  ultimately show ?thesis by blast
qed

lemma getNextAutoMove_tier3:
  assumes ne: "snake \<noteq> []"
    and ex: "\<exists>d. isCandidate snake d"
    and no: "\<forall>d. \<not> (isCandidate snake d \<and> isSafe snake food d)"
  shows "\<exists>d. getNextAutoMove snake food = Inr (Some d) \<and> isCandidate snake d \<and>
           (\<forall>d'. isCandidate snake d' \<longrightarrow>
              spaceEmergency snake d' < spaceEmergency snake d \<or>
              (spaceEmergency snake d' = spaceEmergency snake d \<and> dir_rank d \<le> dir_rank d'))"
proof -
  let ?cands = "filter (isCandidate snake) enumeration"
  let ?safe = "filter (isSafe snake food) ?cands"
  let ?tgt = "filter (\<lambda>d. distToTarget snake food d \<noteq> None) ?safe"
  let ?sp = "spaceEmergency snake"
  from ex obtain d1 where d1: "d1 \<in> set ?cands" using cands_set by blast
  have cne: "?cands \<noteq> []" by (rule in_set_nonempty [OF d1])
  have se: "?safe = []" using no by (auto simp: filter_empty_conv)
  then have te: "?tgt = []" by simp
  have res: "getNextAutoMove snake food =
      (case strategyC_for (map (moveOf (hd snake)) ?cands) snake (None, - 1) of
         Some d \<Rightarrow> Inr (Some d) | None \<Rightarrow> Inr (Some (hd ?cands)))"
    unfolding getNextAutoMove_unfold [OF ne] using te se cne by simp
  have srt: "sorted_wrt (\<lambda>a b. dir_rank a < dir_rank b) ?cands"
    by (intro sorted_wrt_filter enumeration_sorted)
  have nall: "\<not> (\<forall>d \<in> set ?cands. ?sp d \<le> - 1)"
    using d1 spaceEmergency_pos [of snake d1] by force
  from strategyC_for_char [OF srt, of snake "- 1" None] nall
  obtain r where rin: "r \<in> set ?cands"
    and r: "strategyC_for (map (moveOf (hd snake)) ?cands) snake (None, - 1) = Some r"
    and rmax: "\<forall>y \<in> set ?cands. ?sp y < ?sp r \<or> (?sp y = ?sp r \<and> dir_rank r \<le> dir_rank y)"
    by (metis (no_types, lifting))
  have "getNextAutoMove snake food = Inr (Some r)" unfolding res r by simp
  moreover have "isCandidate snake r" using rin cands_set by blast
  moreover have "\<forall>d'. isCandidate snake d' \<longrightarrow>
      ?sp d' < ?sp r \<or> (?sp d' = ?sp r \<and> dir_rank r \<le> dir_rank d')"
    using rmax cands_set by blast
  ultimately show ?thesis by blast
qed

lemma getNextAutoMove_cases:
  assumes ne: "snake \<noteq> []"
  shows "(getNextAutoMove snake food = Inr None \<and> (\<forall>d. \<not> isCandidate snake d)) \<or>
         (\<exists>d. getNextAutoMove snake food = Inr (Some d) \<and> isCandidate snake d \<and>
              ((\<exists>d'. isCandidate snake d' \<and> isSafe snake food d') \<longrightarrow> isSafe snake food d))"
proof (cases "\<exists>d. isCandidate snake d")
  case False
  then show ?thesis using getNextAutoMove_none_iff [OF ne, of food] by simp
next
  case c: True
  show ?thesis
  proof (cases "\<exists>d. isCandidate snake d \<and> isSafe snake food d")
    case False
    then have "\<forall>d. \<not> (isCandidate snake d \<and> isSafe snake food d)" by simp
    from getNextAutoMove_tier3 [OF ne c this] False show ?thesis by blast
  next
    case s: True
    show ?thesis
    proof (cases "\<exists>d. isCandidate snake d \<and> isSafe snake food d \<and> distToTarget snake food d \<noteq> None")
      case True
      from getNextAutoMove_tier1 [OF ne True] show ?thesis by blast
    next
      case False
      then have "\<forall>d. isCandidate snake d \<and> isSafe snake food d \<longrightarrow> distToTarget snake food d = None"
        by simp
      from getNextAutoMove_tier2 [OF ne s this] show ?thesis by blast
    qed
  qed
qed

lemma validMoves_empty_iff:
  assumes "snake \<noteq> []"
  shows "validMoves snake = [] \<longleftrightarrow> (\<forall>d. \<not> isCandidate snake d)"
  unfolding validMoves_eq [OF assms] by (auto simp: filter_empty_conv enumeration_all)

lemma safeMoves_empty_iff:
  assumes "snake \<noteq> []"
  shows "safeMoves_for (validMoves snake) snake food [] = [] \<longleftrightarrow>
         (\<forall>d. \<not> (isCandidate snake d \<and> isSafe snake food d))"
  unfolding validMoves_eq [OF assms] safeMoves_for_eq
  by (auto simp: filter_empty_conv enumeration_all)

lemma applyDirection_inj: "applyDirection h d = applyDirection h d' \<Longrightarrow> d = d'"
  by (cases d; cases d') simp_all

lemma applyDirection_neq: "applyDirection h d \<noteq> h"
  by (cases d; cases h) simp_all

lemma other_direction_inBounds:
  assumes "inBounds h"
  shows "\<exists>d'. d' \<noteq> d \<and> inBounds (applyDirection h d')"
proof -
  from assms have b: "0 \<le> px h" "px h < 25" "0 \<le> py h" "py h < 25"
    by (simp_all add: inBounds_def BOARD_WIDTH_def BOARD_HEIGHT_def)
  have lr: "inBounds (applyDirection h LEFT) \<or> inBounds (applyDirection h RIGHT)"
    using b by (auto simp: inBounds_def BOARD_WIDTH_def BOARD_HEIGHT_def)
  have ud: "inBounds (applyDirection h UP) \<or> inBounds (applyDirection h DOWN)"
    using b by (auto simp: inBounds_def BOARD_WIDTH_def BOARD_HEIGHT_def)
  show ?thesis
  proof (cases d)
    case UP then show ?thesis using lr by auto
  next
    case DOWN then show ?thesis using lr by auto
  next
    case LEFT then show ?thesis using ud by auto
  next
    case RIGHT then show ?thesis using ud by auto
  qed
qed

lemma isCandidate_legalStep: "snake \<noteq> [] \<Longrightarrow> isCandidate snake d \<Longrightarrow> legalStep snake d"
proof -
  assume ne: "snake \<noteq> []" and c: "isCandidate snake d"
  have "set snake = insert (last snake) (set (butlast snake))"
    using ne by (metis append_butlast_last_id list.simps(15) rotate1.simps(2) set_rotate1)
  then show ?thesis using c by (auto simp: isCandidate_def legalStep_def)
qed

lemma no_candidate_no_legalStep:
  assumes v: "validInput snake food" and none: "\<forall>d. \<not> isCandidate snake d"
  shows "\<not> legalStep snake d"
proof
  assume l: "legalStep snake d"
  let ?c = "applyDirection (hd snake) d"
  from v have ne: "snake \<noteq> []" and di: "distinct snake" and hb: "inBounds (hd snake)"
    by (auto simp: validInput_def)
  from l have cb: "inBounds ?c" and ct: "?c \<in> set snake \<longrightarrow> ?c = last snake"
    by (auto simp: legalStep_def)
  have lastn: "last snake \<notin> set (butlast snake)"
    using di ne by (metis append_butlast_last_id distinct_append disjoint_iff list.set_intros(1))
  have nb: "?c \<notin> set (butlast snake)"
  proof
    assume "?c \<in> set (butlast snake)"
    then have "?c \<in> set snake" by (rule in_set_butlastD)
    with ct have "?c = last snake" by simp
    with \<open>?c \<in> set (butlast snake)\<close> lastn show False by simp
  qed
  from none have "\<not> isCandidate snake d" by simp
  with cb nb have neck: "1 < length snake" "?c = snake ! 1" by (auto simp: isCandidate_def)
  then have "?c \<in> set snake" by simp
  with ct have cl: "?c = last snake" by simp
  have "snake ! 1 = snake ! (length snake - 1)"
    using cl neck ne by (simp add: last_conv_nth)
  then have "1 = length snake - 1"
    using di neck(1) by (simp add: nth_eq_iff_index_eq)
  then have len: "length snake = 2" by simp
  then have bl: "butlast snake = [hd snake]"
    by (cases snake; cases "tl snake") auto
  from other_direction_inBounds [OF hb, of d] obtain d' where d': "d' \<noteq> d"
    "inBounds (applyDirection (hd snake) d')" by blast
  have "applyDirection (hd snake) d' \<noteq> snake ! 1"
    using neck(2) d'(1) applyDirection_inj by metis
  then have "isCandidate snake d'"
    using d'(2) bl applyDirection_neq by (simp add: isCandidate_def)
  with none show False by simp
qed

lemma strategyC_for_Some:
  assumes ne: "snake \<noteq> []" and v: "validMoves snake \<noteq> []"
  shows "\<exists>d. strategyC_for (validMoves snake) snake (None, - 1) = Some d"
proof -
  let ?cands = "filter (isCandidate snake) enumeration"
  from v obtain d1 where d1: "d1 \<in> set ?cands"
    unfolding validMoves_eq [OF ne] by (cases ?cands) auto
  have srt: "sorted_wrt (\<lambda>a b. dir_rank a < dir_rank b) ?cands"
    by (intro sorted_wrt_filter enumeration_sorted)
  have nall: "\<not> (\<forall>d \<in> set ?cands. spaceEmergency snake d \<le> - 1)"
    using d1 spaceEmergency_pos [of snake d1] by force
  from strategyC_for_char [OF srt, of snake "- 1" None] nall
  show ?thesis unfolding validMoves_eq [OF ne] by (metis (no_types, lifting))
qed

text \<open>The coiled body: what the policy computes there.\<close>

lemma coiled_valid: "validInput coiled_body far_target"
  by (simp add: validInput_def inBounds_def BOARD_WIDTH_def BOARD_HEIGHT_def)

lemma coiled_candidates:
  "\<not> isCandidate coiled_body UP" "isCandidate coiled_body DOWN"
  "isCandidate coiled_body LEFT" "\<not> isCandidate coiled_body RIGHT"
  by code_simp+

lemma coiled_safe:
  "isSafe coiled_body far_target DOWN" "isSafe coiled_body far_target LEFT"
  by code_simp+

lemma coiled_dist:
  "distToTarget coiled_body far_target DOWN = None" "distToTarget coiled_body far_target LEFT = None"
  by code_simp+

lemma coiled_space:
  "spaceExcludingTail coiled_body far_target DOWN = 4" "spaceExcludingTail coiled_body far_target LEFT = 4"
  "spaceWithTail coiled_body far_target DOWN = 1" "spaceWithTail coiled_body far_target LEFT = 2"
  by code_simp+

lemma coiled_result: "getNextAutoMove coiled_body far_target = Inr (Some LEFT)"
  by code_simp

section \<open>The claims about the searches\<close>

text \<open>
  Claim C6. For every start cell, goal cell and obstacle set, \<^const>\<open>getPath\<close> returns \<open>None\<close>
  exactly when the goal cannot be reached from the start by steps to free cells; a returned
  direction sequence is a path whose length is the graph distance (no sequence of steps is
  shorter); and the empty sequence is returned when start and goal coincide. The start cell is
  always visitable, also when it is an obstacle, as the engine calls the search; when the
  start is a free cell, distance and reachability are those of the grid graph with the
  obstacle cells removed.
\<close>
theorem getPath_shortest:
  "(getPath start goal obs = None \<longleftrightarrow> (start, goal) \<notin> (step_rel obs)\<^sup>*) \<and>
   (\<forall>ds. getPath start goal obs = Some ds \<longrightarrow>
      (start, goal) \<in> step_rel obs ^^ length ds \<and> length ds = graph_dist obs start goal) \<and>
   getPath start start obs = Some [] \<and>
   (inBounds start \<and> start \<notin> obs \<longrightarrow>
      graph_dist obs start goal = grid_dist obs start goal \<and>
      ((start, goal) \<in> (step_rel obs)\<^sup>* \<longleftrightarrow> (start, goal) \<in> (grid_graph obs)\<^sup>*))"
proof (intro conjI allI impI)
  show "getPath start goal obs = None \<longleftrightarrow> (start, goal) \<notin> (step_rel obs)\<^sup>*"
    by (rule getPath_None_iff)
  show "getPath start start obs = Some []" by (rule getPath_self)
next
  fix ds assume "getPath start goal obs = Some ds"
  then show "(start, goal) \<in> step_rel obs ^^ length ds" "length ds = graph_dist obs start goal"
    by (rule getPath_Some_props(4), rule getPath_dist)
next
  assume fr: "inBounds start \<and> start \<notin> obs"
  then show "graph_dist obs start goal = grid_dist obs start goal"
    by (simp add: graph_dist_def grid_dist_def free_start_relpow del: relpow.simps)
  from fr show "(start, goal) \<in> (step_rel obs)\<^sup>* \<longleftrightarrow> (start, goal) \<in> (grid_graph obs)\<^sup>*"
    by (simp add: free_start_rtrancl)
qed

theorem getPath_shortest_witness:
  "getPath \<lparr>px = 0, py = 0\<rparr> \<lparr>px = 1, py = 1\<rparr> {\<lparr>px = 1, py = 0\<rparr>} = Some [DOWN, RIGHT] \<and>
   graph_dist {\<lparr>px = 1, py = 0\<rparr>} \<lparr>px = 0, py = 0\<rparr> \<lparr>px = 1, py = 1\<rparr> = 2 \<and>
   grid_dist {\<lparr>px = 1, py = 0\<rparr>} \<lparr>px = 0, py = 0\<rparr> \<lparr>px = 1, py = 1\<rparr> = 2 \<and>
   (\<lparr>px = 0, py = 0\<rparr>, \<lparr>px = 1, py = 1\<rparr>) \<in> (grid_graph {\<lparr>px = 1, py = 0\<rparr>})\<^sup>*"
proof -
  have e: "getPath \<lparr>px = 0, py = 0\<rparr> \<lparr>px = 1, py = 1\<rparr> {\<lparr>px = 1, py = 0\<rparr>} = Some [DOWN, RIGHT]"
    by code_simp
  have b: "inBounds \<lparr>px = 0, py = 0\<rparr> \<and> \<lparr>px = 0, py = 0\<rparr> \<notin> {\<lparr>px = 1, py = 0\<rparr>}"
    by (simp add: inBounds_def BOARD_WIDTH_def BOARD_HEIGHT_def)
  from getPath_shortest [of "\<lparr>px = 0, py = 0\<rparr>" "\<lparr>px = 1, py = 1\<rparr>" "{\<lparr>px = 1, py = 0\<rparr>}"] e b
  show ?thesis by auto
qed

text \<open>
  Claim C10. When \<^const>\<open>getPath\<close> returns a direction sequence, the walk it describes from the
  start visits, after the start, only cells that are on the board and not obstacles, visits
  no cell twice, and ends exactly at the goal.
\<close>
theorem getPath_valid_walk:
  "getPath start goal obs = Some ds \<Longrightarrow>
     (\<forall>c \<in> set (tl (walk start ds)). inBounds c \<and> c \<notin> obs) \<and>
     distinct (walk start ds) \<and>
     last (walk start ds) = goal"
  using getPath_Some_props(1,2,3) by blast

theorem getPath_valid_walk_witness:
  "getPath \<lparr>px = 0, py = 0\<rparr> \<lparr>px = 1, py = 1\<rparr> {\<lparr>px = 1, py = 0\<rparr>} = Some [DOWN, RIGHT] \<and>
   walk \<lparr>px = 0, py = 0\<rparr> [DOWN, RIGHT] = [\<lparr>px = 0, py = 0\<rparr>, \<lparr>px = 0, py = 1\<rparr>, \<lparr>px = 1, py = 1\<rparr>] \<and>
   inBounds \<lparr>px = 0, py = 1\<rparr> \<and> \<lparr>px = 0, py = 1\<rparr> \<notin> {\<lparr>px = 1, py = 0\<rparr>} \<and>
   inBounds \<lparr>px = 1, py = 1\<rparr> \<and> \<lparr>px = 1, py = 1\<rparr> \<notin> {\<lparr>px = 1, py = 0\<rparr>} \<and>
   distinct (walk \<lparr>px = 0, py = 0\<rparr> [DOWN, RIGHT]) \<and>
   last (walk \<lparr>px = 0, py = 0\<rparr> [DOWN, RIGHT]) = \<lparr>px = 1, py = 1\<rparr>"
proof -
  have e: "getPath \<lparr>px = 0, py = 0\<rparr> \<lparr>px = 1, py = 1\<rparr> {\<lparr>px = 1, py = 0\<rparr>} = Some [DOWN, RIGHT]"
    by code_simp
  from getPath_valid_walk [OF e] e show ?thesis by simp
qed

text \<open>
  Claim C8. For a start cell (a cell of the board) that is not an obstacle,
  \<^const>\<open>getAccessibleAreaSize\<close> returns the number of cells of the connected component of the
  start in the grid graph with the obstacle cells removed, and the result is at least 1.
\<close>
theorem getAccessibleAreaSize_component:
  "inBounds start \<Longrightarrow> start \<notin> obs \<Longrightarrow>
     getAccessibleAreaSize start obs = int (card (component obs start)) \<and>
     1 \<le> getAccessibleAreaSize start obs"
proof -
  assume a: "inBounds start" "start \<notin> obs"
  have "component obs start = {v. (start, v) \<in> (step_rel obs)\<^sup>*}"
    by (simp add: component_def free_start_rtrancl [OF a])
  then show ?thesis
    using getAccessibleAreaSize_eq [of start obs] getAccessibleAreaSize_pos [of start obs] by simp
qed

theorem getAccessibleAreaSize_component_witness:
  "inBounds \<lparr>px = 0, py = 0\<rparr> \<and> \<lparr>px = 0, py = 0\<rparr> \<notin> {\<lparr>px = 1, py = 0\<rparr>, \<lparr>px = 1, py = 1\<rparr>, \<lparr>px = 0, py = 2\<rparr>} \<and>
   getAccessibleAreaSize \<lparr>px = 0, py = 0\<rparr> {\<lparr>px = 1, py = 0\<rparr>, \<lparr>px = 1, py = 1\<rparr>, \<lparr>px = 0, py = 2\<rparr>} = 2 \<and>
   card (component {\<lparr>px = 1, py = 0\<rparr>, \<lparr>px = 1, py = 1\<rparr>, \<lparr>px = 0, py = 2\<rparr>} \<lparr>px = 0, py = 0\<rparr>) = 2"
proof -
  have b: "inBounds \<lparr>px = 0, py = 0\<rparr>"
    by (simp add: inBounds_def BOARD_WIDTH_def BOARD_HEIGHT_def)
  have o: "\<lparr>px = 0, py = 0\<rparr> \<notin> {\<lparr>px = 1, py = 0\<rparr>, \<lparr>px = 1, py = 1\<rparr>, \<lparr>px = 0, py = 2\<rparr>}" by simp
  have e: "getAccessibleAreaSize \<lparr>px = 0, py = 0\<rparr> {\<lparr>px = 1, py = 0\<rparr>, \<lparr>px = 1, py = 1\<rparr>, \<lparr>px = 0, py = 2\<rparr>} = 2"
    by code_simp
  from getAccessibleAreaSize_component [OF b o] e b o show ?thesis by simp
qed

section \<open>The claims about the decision policy\<close>

text \<open>
  Claim C1. For a body that is not empty, does not intersect itself and lies on the board, and
  a target on the board outside the body: if \<^const>\<open>getNextAutoMove\<close> returns a direction, the
  cell it leads to from the head is on the board and not occupied by a body cell other than
  the current tail; if it returns no direction, no direction leads to such a cell. It never
  throws on such an input.
\<close>
theorem getNextAutoMove_legal:
  assumes "validInput snake food"
  shows "(\<forall>d. getNextAutoMove snake food = Inr (Some d) \<longrightarrow> legalStep snake d) \<and>
         (getNextAutoMove snake food = Inr None \<longrightarrow> (\<forall>d. \<not> legalStep snake d)) \<and>
         (\<exists>r. getNextAutoMove snake food = Inr r)"
proof -
  from assms have ne: "snake \<noteq> []" by (simp add: validInput_def)
  note c = getNextAutoMove_cases [OF ne, of food]
  have a: "\<forall>d. getNextAutoMove snake food = Inr (Some d) \<longrightarrow> legalStep snake d"
    using c isCandidate_legalStep [OF ne] by auto
  have b: "getNextAutoMove snake food = Inr None \<longrightarrow> (\<forall>d. \<not> legalStep snake d)"
    using c no_candidate_no_legalStep [OF assms] by auto
  have "\<exists>r. getNextAutoMove snake food = Inr r" using c by auto
  with a b show ?thesis by blast
qed

theorem getNextAutoMove_legal_witness:
  "validInput scenarioA_body scenarioA_target \<and>
   getNextAutoMove scenarioA_body scenarioA_target = Inr (Some UP) \<and>
   legalStep scenarioA_body UP"
proof -
  have v: "validInput scenarioA_body scenarioA_target"
    by (simp add: validInput_def inBounds_def BOARD_WIDTH_def BOARD_HEIGHT_def)
  have e: "getNextAutoMove scenarioA_body scenarioA_target = Inr (Some UP)"
    by code_simp
  from getNextAutoMove_legal [OF v] e v show ?thesis by blast
qed

text \<open>
  Claim C2. On a valid input where some safe candidate has a path to the target in its virtual
  state, \<^const>\<open>getNextAutoMove\<close> returns a safe candidate whose distance to the target (the
  graph distance from its virtual head over the virtual obstacle set) is least; among equal
  distances it is the first in the order UP, DOWN, LEFT, RIGHT.
\<close>
theorem getNextAutoMove_targeted:
  assumes "validInput snake food"
    and "\<exists>d. isCandidate snake d \<and> isSafe snake food d \<and> distToTarget snake food d \<noteq> None"
  shows "\<exists>d k. getNextAutoMove snake food = Inr (Some d) \<and>
           isCandidate snake d \<and> isSafe snake food d \<and> distToTarget snake food d = Some k \<and>
           k = graph_dist (obstaclesExcludingTail (simulate snake (applyDirection (hd snake) d) food))
                 (applyDirection (hd snake) d) food \<and>
           (\<forall>d' k'. isCandidate snake d' \<and> isSafe snake food d' \<and> distToTarget snake food d' = Some k'
              \<longrightarrow> k < k' \<or> (k = k' \<and> dir_rank d \<le> dir_rank d'))"
proof -
  from assms(1) have ne: "snake \<noteq> []" by (simp add: validInput_def)
  from getNextAutoMove_tier1 [OF ne assms(2)] obtain d k where
    r: "getNextAutoMove snake food = Inr (Some d)" "isCandidate snake d" "isSafe snake food d"
    and k: "distToTarget snake food d = Some k"
    and m: "\<forall>d' k'. isCandidate snake d' \<and> isSafe snake food d' \<and> distToTarget snake food d' = Some k'
              \<longrightarrow> k < k' \<or> (k = k' \<and> dir_rank d \<le> dir_rank d')"
    by blast
  from k obtain ds where "getPath (applyDirection (hd snake) d) food
      (obstaclesExcludingTail (simulate snake (applyDirection (hd snake) d) food)) = Some ds" "length ds = k"
    by (auto simp: distToTarget_def Let_def)
  then have "k = graph_dist (obstaclesExcludingTail (simulate snake (applyDirection (hd snake) d) food))
                 (applyDirection (hd snake) d) food"
    using getPath_dist by blast
  with r k m show ?thesis by blast
qed

theorem getNextAutoMove_targeted_witness:
  "validInput scenarioA_body scenarioA_target \<and>
   isCandidate scenarioA_body LEFT \<and>
   isSafe scenarioA_body scenarioA_target LEFT \<and>
   distToTarget scenarioA_body scenarioA_target LEFT = Some 3 \<and>
   getNextAutoMove scenarioA_body scenarioA_target = Inr (Some UP) \<and>
   distToTarget scenarioA_body scenarioA_target UP = Some 1 \<and>
   (\<exists>k. distToTarget scenarioA_body scenarioA_target UP = Some k \<and> k < 3)"
proof -
  have v: "validInput scenarioA_body scenarioA_target"
    by (simp add: validInput_def inBounds_def BOARD_WIDTH_def BOARD_HEIGHT_def)
  have c: "isCandidate scenarioA_body LEFT" by code_simp
  have s: "isSafe scenarioA_body scenarioA_target LEFT" by code_simp
  have dl: "distToTarget scenarioA_body scenarioA_target LEFT = Some 3" by code_simp
  have du: "distToTarget scenarioA_body scenarioA_target UP = Some 1" by code_simp
  have e: "getNextAutoMove scenarioA_body scenarioA_target = Inr (Some UP)" by code_simp
  have h: "\<exists>d. isCandidate scenarioA_body d \<and> isSafe scenarioA_body scenarioA_target d \<and> distToTarget scenarioA_body scenarioA_target d \<noteq> None"
    using c s dl by (intro exI [of _ LEFT]) simp
  from getNextAutoMove_targeted [OF v h] obtain d k where
    "getNextAutoMove scenarioA_body scenarioA_target = Inr (Some d)" "distToTarget scenarioA_body scenarioA_target d = Some k"
    "\<forall>d' k'. isCandidate scenarioA_body d' \<and> isSafe scenarioA_body scenarioA_target d' \<and> distToTarget scenarioA_body scenarioA_target d' = Some k'
              \<longrightarrow> k < k' \<or> (k = k' \<and> dir_rank d \<le> dir_rank d')"
    by blast
  with e c s dl have "d = UP" "k < 3 \<or> (k = 3 \<and> dir_rank UP \<le> dir_rank LEFT)"
    by auto
  with du \<open>distToTarget scenarioA_body scenarioA_target d = Some k\<close> have "\<exists>k. distToTarget scenarioA_body scenarioA_target UP = Some k \<and> k < 3" by simp
  with v c s dl du e show ?thesis by blast
qed

text \<open>
  Claim C3. On a valid input where the pool of safe moves is not empty (the decision is then
  taken by the first or the second tier), running \<^const>\<open>getPath\<close> again from the virtual head of
  the returned direction to its virtual tail, over the virtual body without its last cell,
  yields a path.
\<close>
theorem getNextAutoMove_tail_reachable:
  assumes "validInput snake food"
    and "safeMoves_for (validMoves snake) snake food [] \<noteq> []"
    and "getNextAutoMove snake food = Inr (Some d)"
  shows "getPath (applyDirection (hd snake) d)
           (last (virtualSnake snake food (applyDirection (hd snake) d)))
           (set (butlast (virtualSnake snake food (applyDirection (hd snake) d)))) \<noteq> None"
proof -
  from assms(1) have ne: "snake \<noteq> []" by (simp add: validInput_def)
  from assms(2) have "\<exists>d'. isCandidate snake d' \<and> isSafe snake food d'"
    using safeMoves_empty_iff [OF ne, of food] by blast
  with getNextAutoMove_cases [OF ne, of food] assms(3) have "isSafe snake food d" by auto
  then show ?thesis
    by (simp add: isSafe_def Let_def virtualSnake_eq simulate_def)
qed

theorem getNextAutoMove_tail_reachable_witness:
  "validInput scenarioA_body scenarioA_target \<and>
   safeMoves_for (validMoves scenarioA_body)
     scenarioA_body scenarioA_target [] \<noteq> [] \<and>
   getNextAutoMove scenarioA_body scenarioA_target = Inr (Some UP) \<and>
   getPath \<lparr>px = 2, py = 1\<rparr> \<lparr>px = 2, py = 3\<rparr> {\<lparr>px = 2, py = 1\<rparr>, \<lparr>px = 2, py = 2\<rparr>} \<noteq> None"
proof -
  have v: "validInput scenarioA_body scenarioA_target"
    by (simp add: validInput_def inBounds_def BOARD_WIDTH_def BOARD_HEIGHT_def)
  have s: "safeMoves_for (validMoves scenarioA_body) scenarioA_body scenarioA_target [] \<noteq> []" by code_simp
  have e: "getNextAutoMove scenarioA_body scenarioA_target = Inr (Some UP)" by code_simp
  have vs: "virtualSnake scenarioA_body scenarioA_target (applyDirection (hd scenarioA_body) UP) = [\<lparr>px = 2, py = 1\<rparr>, \<lparr>px = 2, py = 2\<rparr>, \<lparr>px = 2, py = 3\<rparr>]"
    by (simp add: virtualSnake_def slice_0_m1_def)
  from getNextAutoMove_tail_reachable [OF v s e]
  have "getPath \<lparr>px = 2, py = 1\<rparr> \<lparr>px = 2, py = 3\<rparr> {\<lparr>px = 2, py = 1\<rparr>, \<lparr>px = 2, py = 2\<rparr>} \<noteq> None"
    unfolding vs by simp
  with v s e show ?thesis by blast
qed

text \<open>
  Claim C4, as stated, fails. On the coiled body with a target that no safe candidate reaches,
  the safe candidates are DOWN and LEFT; over the virtual body without its last cell both
  have the flood-fill count 4, so the stated rule selects DOWN, the first in the enumeration
  order; \<^const>\<open>getNextAutoMove\<close> returns LEFT.
\<close>
theorem tier2_excluding_tail_counterexample:
  "validInput coiled_body far_target \<and>
   isCandidate coiled_body DOWN \<and> isSafe coiled_body far_target DOWN \<and>
   isCandidate coiled_body LEFT \<and> isSafe coiled_body far_target LEFT \<and>
   \<not> isCandidate coiled_body UP \<and> \<not> isCandidate coiled_body RIGHT \<and>
   distToTarget coiled_body far_target DOWN = None \<and>
   distToTarget coiled_body far_target LEFT = None \<and>
   spaceExcludingTail coiled_body far_target DOWN = 4 \<and>
   spaceExcludingTail coiled_body far_target LEFT = 4 \<and>
   dir_rank DOWN < dir_rank LEFT \<and>
   getNextAutoMove coiled_body far_target = Inr (Some LEFT) \<and>
   \<not> tier2ExcludingTail coiled_body far_target"
proof -
  have "\<not> tier2ExcludingTail coiled_body far_target"
  proof
    assume "tier2ExcludingTail coiled_body far_target"
    then obtain d where d: "getNextAutoMove coiled_body far_target = Inr (Some d)"
      and m: "\<forall>d'. isCandidate coiled_body d' \<and> isSafe coiled_body far_target d' \<longrightarrow>
             spaceExcludingTail coiled_body far_target d' < spaceExcludingTail coiled_body far_target d \<or>
             (spaceExcludingTail coiled_body far_target d' = spaceExcludingTail coiled_body far_target d \<and>
              dir_rank d \<le> dir_rank d')"
      unfolding tier2ExcludingTail_def by blast
    from d coiled_result have "d = LEFT" by simp
    with m coiled_candidates(2) coiled_safe(1) coiled_space(1,2) show False by fastforce
  qed
  then show ?thesis
    using coiled_valid coiled_candidates coiled_safe coiled_dist coiled_space(1,2) coiled_result
    by simp
qed

text \<open>
  Claim C4, amended. On a valid input where safe candidates exist and none has a path to the
  target, \<^const>\<open>getNextAutoMove\<close> returns the safe candidate of largest flood-fill count from
  its virtual head, the count taken over the whole virtual body (the virtual tail included);
  among equal counts it is the first in the order UP, DOWN, LEFT, RIGHT.
\<close>
theorem getNextAutoMove_space_maximizing:
  assumes "validInput snake food"
    and "\<exists>d. isCandidate snake d \<and> isSafe snake food d"
    and "\<forall>d. isCandidate snake d \<and> isSafe snake food d \<longrightarrow> distToTarget snake food d = None"
  shows "\<exists>d. getNextAutoMove snake food = Inr (Some d) \<and>
           isCandidate snake d \<and> isSafe snake food d \<and>
           spaceWithTail snake food d =
             getAccessibleAreaSize (applyDirection (hd snake) d)
               (set (virtualSnake snake food (applyDirection (hd snake) d))) \<and>
           (\<forall>d'. isCandidate snake d' \<and> isSafe snake food d' \<longrightarrow>
              spaceWithTail snake food d' < spaceWithTail snake food d \<or>
              (spaceWithTail snake food d' = spaceWithTail snake food d \<and> dir_rank d \<le> dir_rank d'))"
proof -
  from assms(1) have ne: "snake \<noteq> []" by (simp add: validInput_def)
  have "spaceWithTail snake food d =
          getAccessibleAreaSize (applyDirection (hd snake) d)
            (set (virtualSnake snake food (applyDirection (hd snake) d)))" for d
    by (simp add: spaceWithTail_def Let_def virtualSnake_eq)
  with getNextAutoMove_tier2 [OF ne assms(2,3)] show ?thesis by blast
qed

theorem getNextAutoMove_space_maximizing_witness:
  "validInput coiled_body far_target \<and>
   isCandidate coiled_body DOWN \<and> isSafe coiled_body far_target DOWN \<and>
   (\<exists>d. getNextAutoMove coiled_body far_target = Inr (Some d) \<and> d = LEFT \<and>
        spaceWithTail coiled_body far_target DOWN < spaceWithTail coiled_body far_target d)"
proof -
  have h2: "\<exists>d. isCandidate coiled_body d \<and> isSafe coiled_body far_target d"
    using coiled_candidates(2) coiled_safe(1) by blast
  have h3: "\<forall>d. isCandidate coiled_body d \<and> isSafe coiled_body far_target d \<longrightarrow>
       distToTarget coiled_body far_target d = None"
  proof (intro allI impI)
    fix d assume "isCandidate coiled_body d \<and> isSafe coiled_body far_target d"
    then show "distToTarget coiled_body far_target d = None"
      using coiled_candidates coiled_dist by (cases d) simp_all
  qed
  from getNextAutoMove_space_maximizing [OF coiled_valid h2 h3] obtain d where
    d: "getNextAutoMove coiled_body far_target = Inr (Some d)"
    and m: "\<forall>d'. isCandidate coiled_body d' \<and> isSafe coiled_body far_target d' \<longrightarrow>
        spaceWithTail coiled_body far_target d' < spaceWithTail coiled_body far_target d \<or>
        (spaceWithTail coiled_body far_target d' = spaceWithTail coiled_body far_target d \<and>
         dir_rank d \<le> dir_rank d')"
    by blast
  from d coiled_result have l: "d = LEFT" by simp
  from m coiled_candidates(2) coiled_safe(1)
  have "spaceWithTail coiled_body far_target DOWN < spaceWithTail coiled_body far_target d \<or>
        (spaceWithTail coiled_body far_target DOWN = spaceWithTail coiled_body far_target d \<and>
         dir_rank d \<le> dir_rank DOWN)" by blast
  with l have "spaceWithTail coiled_body far_target DOWN < spaceWithTail coiled_body far_target d"
    by auto
  with d l coiled_valid coiled_candidates(2) coiled_safe(1) show ?thesis by blast
qed

text \<open>
  Claim C5. The virtual body that the safety loop builds for a candidate head is the
  candidate head followed by the whole body when the candidate head is the target, and by the
  body without its last cell otherwise; the virtual tail is the last cell of the virtual body,
  and the obstacle set of the safety check is the virtual body without that cell. This is the
  state that the simulator of the specification yields, and the loop runs its searches on it.
\<close>
theorem virtualSnake_simulates:
  "virtualSnake body target candidateHead =
     (if candidateHead = target then [candidateHead] @ body else [candidateHead] @ butlast body) \<and>
   virtualSnake body target candidateHead ! (length (virtualSnake body target candidateHead) - 1) =
     last (virtualSnake body target candidateHead) \<and>
   set (slice_0_m1 (virtualSnake body target candidateHead)) =
     set (butlast (virtualSnake body target candidateHead)) \<and>
   simulate body candidateHead target =
     \<lparr>virtualBody = virtualSnake body target candidateHead,
      virtualTail = last (virtualSnake body target candidateHead),
      obstaclesExcludingTail = set (butlast (virtualSnake body target candidateHead))\<rparr> \<and>
   safeMoves_for (move # rest) body target acc =
     (let c = \<lparr>px = mx move, py = my move\<rparr>; vs = simulate body c target
      in if getPath c (virtualTail vs) (obstaclesExcludingTail vs) \<noteq> None
         then safeMoves_for rest body target
                (acc @ [\<lparr>sdir = dir move,
                         distToFood = map_option length (getPath c target (obstaclesExcludingTail vs)),
                         space = 0\<rparr>])
         else safeMoves_for rest body target acc)"
proof (intro conjI)
  show a: "virtualSnake body target candidateHead =
     (if candidateHead = target then [candidateHead] @ body else [candidateHead] @ butlast body)"
    by (simp add: virtualSnake_def Let_def slice_0_m1_butlast Point_fields_eq)
  show b: "virtualSnake body target candidateHead ! (length (virtualSnake body target candidateHead) - 1) =
     last (virtualSnake body target candidateHead)"
    by (simp add: last_conv_nth virtualSnake_nonempty)
  show "set (slice_0_m1 (virtualSnake body target candidateHead)) =
     set (butlast (virtualSnake body target candidateHead))"
    by (simp add: slice_0_m1_butlast)
  show "simulate body candidateHead target =
     \<lparr>virtualBody = virtualSnake body target candidateHead,
      virtualTail = last (virtualSnake body target candidateHead),
      obstaclesExcludingTail = set (butlast (virtualSnake body target candidateHead))\<rparr>"
    unfolding a by (simp add: simulate_def Let_def)
  have m: "(case x of None \<Rightarrow> None | Some p \<Rightarrow> Some (length p)) = map_option length x"
    for x :: "Direction list option"
    by (cases x) simp_all
  show "safeMoves_for (move # rest) body target acc =
     (let c = \<lparr>px = mx move, py = my move\<rparr>; vs = simulate body c target
      in if getPath c (virtualTail vs) (obstaclesExcludingTail vs) \<noteq> None
         then safeMoves_for rest body target
                (acc @ [\<lparr>sdir = dir move,
                         distToFood = map_option length (getPath c target (obstaclesExcludingTail vs)),
                         space = 0\<rparr>])
         else safeMoves_for rest body target acc)"
    unfolding safeMoves_for.simps Let_def virtualTail_eq obstacleSet_eq m ..
qed

theorem virtualSnake_simulates_witness:
  "virtualSnake scenarioA_body scenarioA_target \<lparr>px = 2, py = 1\<rparr> =
     [\<lparr>px = 2, py = 1\<rparr>, \<lparr>px = 2, py = 2\<rparr>, \<lparr>px = 2, py = 3\<rparr>] \<and>
   virtualSnake scenarioA_body \<lparr>px = 2, py = 1\<rparr> \<lparr>px = 2, py = 1\<rparr> =
     [\<lparr>px = 2, py = 1\<rparr>, \<lparr>px = 2, py = 2\<rparr>, \<lparr>px = 2, py = 3\<rparr>, \<lparr>px = 2, py = 4\<rparr>] \<and>
   virtualTail (simulate scenarioA_body \<lparr>px = 2, py = 1\<rparr> scenarioA_target) = \<lparr>px = 2, py = 3\<rparr> \<and>
   obstaclesExcludingTail (simulate scenarioA_body \<lparr>px = 2, py = 1\<rparr> scenarioA_target) =
     {\<lparr>px = 2, py = 1\<rparr>, \<lparr>px = 2, py = 2\<rparr>}"
proof -
  note t1 = virtualSnake_simulates [of scenarioA_body scenarioA_target "\<lparr>px = 2, py = 1\<rparr>"]
  note t2 = virtualSnake_simulates [of scenarioA_body "\<lparr>px = 2, py = 1\<rparr>" "\<lparr>px = 2, py = 1\<rparr>"]
  from t1 have a: "virtualSnake scenarioA_body scenarioA_target \<lparr>px = 2, py = 1\<rparr> =
     [\<lparr>px = 2, py = 1\<rparr>, \<lparr>px = 2, py = 2\<rparr>, \<lparr>px = 2, py = 3\<rparr>]" by simp
  from t2 have b: "virtualSnake scenarioA_body \<lparr>px = 2, py = 1\<rparr> \<lparr>px = 2, py = 1\<rparr> =
     [\<lparr>px = 2, py = 1\<rparr>, \<lparr>px = 2, py = 2\<rparr>, \<lparr>px = 2, py = 3\<rparr>, \<lparr>px = 2, py = 4\<rparr>]" by simp
  from t1 have c: "simulate scenarioA_body \<lparr>px = 2, py = 1\<rparr> scenarioA_target =
     \<lparr>virtualBody = virtualSnake scenarioA_body scenarioA_target \<lparr>px = 2, py = 1\<rparr>,
      virtualTail = last (virtualSnake scenarioA_body scenarioA_target \<lparr>px = 2, py = 1\<rparr>),
      obstaclesExcludingTail = set (butlast (virtualSnake scenarioA_body scenarioA_target \<lparr>px = 2, py = 1\<rparr>))\<rparr>"
    by blast
  show ?thesis using a b unfolding c a by auto
qed

text \<open>
  Claim C7. On a valid input \<^const>\<open>getNextAutoMove\<close> returns no direction exactly when candidate
  generation leaves no legal first step, that is when every neighbour of the head is off the
  board, is the neck, or is occupied by a body cell other than the tail. When a candidate
  survives a direction is returned; in particular the emergency tier always finds one.
\<close>
theorem getNextAutoMove_none_iff_trapped:
  assumes "validInput snake food"
  shows "(getNextAutoMove snake food = Inr None \<longleftrightarrow> validMoves snake = []) \<and>
         (validMoves snake = [] \<longleftrightarrow> (\<forall>d. \<not> isCandidate snake d)) \<and>
         (validMoves snake \<noteq> [] \<longrightarrow> (\<exists>d. getNextAutoMove snake food = Inr (Some d))) \<and>
         (validMoves snake \<noteq> [] \<and> safeMoves_for (validMoves snake) snake food [] = [] \<longrightarrow>
            (\<exists>d. strategyC_for (validMoves snake) snake (None, - 1) = Some d \<and>
                 getNextAutoMove snake food = Inr (Some d) \<and> isCandidate snake d))"
proof -
  from assms have ne: "snake \<noteq> []" by (simp add: validInput_def)
  note ve = validMoves_empty_iff [OF ne]
  note cs = getNextAutoMove_cases [OF ne, of food]
  have a: "getNextAutoMove snake food = Inr None \<longleftrightarrow> validMoves snake = []"
    using getNextAutoMove_none_iff [OF ne, of food] ve by simp
  have c: "validMoves snake \<noteq> [] \<longrightarrow> (\<exists>d. getNextAutoMove snake food = Inr (Some d))"
    using cs ve by blast
  have d: "validMoves snake \<noteq> [] \<and> safeMoves_for (validMoves snake) snake food [] = [] \<longrightarrow>
            (\<exists>d. strategyC_for (validMoves snake) snake (None, - 1) = Some d \<and>
                 getNextAutoMove snake food = Inr (Some d) \<and> isCandidate snake d)"
  proof
    assume h: "validMoves snake \<noteq> [] \<and> safeMoves_for (validMoves snake) snake food [] = []"
    then obtain d where s: "strategyC_for (validMoves snake) snake (None, - 1) = Some d"
      using strategyC_for_Some [OF ne] by blast
    from h have "getNextAutoMove snake food = Inr (Some d)"
      unfolding getNextAutoMove_def Let_def using ne s by simp
    moreover from this cs have "isCandidate snake d" by auto
    ultimately show "\<exists>d. strategyC_for (validMoves snake) snake (None, - 1) = Some d \<and>
                 getNextAutoMove snake food = Inr (Some d) \<and> isCandidate snake d"
      using s by blast
  qed
  from a ve c d show ?thesis by blast
qed

theorem getNextAutoMove_none_iff_trapped_witness:
  "validInput trapped_body far_target \<and> validMoves trapped_body = [] \<and>
   getNextAutoMove trapped_body far_target = Inr None \<and>
   validInput scenarioA_body scenarioA_target \<and> validMoves scenarioA_body \<noteq> [] \<and>
   (\<exists>d. getNextAutoMove scenarioA_body scenarioA_target = Inr (Some d))"
proof -
  have v1: "validInput trapped_body far_target"
    by (simp add: validInput_def inBounds_def BOARD_WIDTH_def BOARD_HEIGHT_def)
  have v2: "validInput scenarioA_body scenarioA_target"
    by (simp add: validInput_def inBounds_def BOARD_WIDTH_def BOARD_HEIGHT_def)
  have e1: "validMoves trapped_body = []" by code_simp
  have e2: "validMoves scenarioA_body \<noteq> []" by code_simp
  from getNextAutoMove_none_iff_trapped [OF v1] e1
  have r1: "getNextAutoMove trapped_body far_target = Inr None" by blast
  from getNextAutoMove_none_iff_trapped [OF v2] e2
  have r2: "\<exists>d. getNextAutoMove scenarioA_body scenarioA_target = Inr (Some d)" by blast
  from v1 v2 e1 e2 r1 r2 show ?thesis by blast
qed

text \<open>
  Claim C9. For the body (2,2), (2,3), (2,4) and the target (2,0) the decision falls in the
  first tier and \<^const>\<open>getNextAutoMove\<close> returns UP: the candidate UP has the least distance,
  its remaining path from the virtual head (2,1) is UP, and the shortest path from the head
  to the target is UP, UP, of length 2.
\<close>
theorem scenarioA_returns_UP:
  "getNextAutoMove scenarioA_body scenarioA_target = Inr (Some UP) \<and>
   filter (\<lambda>m. distToFood m \<noteq> None)
     (safeMoves_for (validMoves scenarioA_body) scenarioA_body scenarioA_target []) =
     [\<lparr>sdir = UP, distToFood = Some 1, space = 0\<rparr>,
      \<lparr>sdir = LEFT, distToFood = Some 3, space = 0\<rparr>,
      \<lparr>sdir = RIGHT, distToFood = Some 3, space = 0\<rparr>] \<and>
   getPath (applyDirection (hd scenarioA_body) UP) scenarioA_target
     (set (butlast (virtualSnake scenarioA_body scenarioA_target (applyDirection (hd scenarioA_body) UP))))
     = Some [UP] \<and>
   getPath (hd scenarioA_body) scenarioA_target (set scenarioA_body) = Some [UP, UP] \<and>
   walk (hd scenarioA_body) [UP, UP] = [\<lparr>px = 2, py = 2\<rparr>, \<lparr>px = 2, py = 1\<rparr>, \<lparr>px = 2, py = 0\<rparr>] \<and>
   length [UP, UP] = 2"
proof (intro conjI)
  show "getNextAutoMove scenarioA_body scenarioA_target = Inr (Some UP)" by code_simp
  show "filter (\<lambda>m. distToFood m \<noteq> None)
     (safeMoves_for (validMoves scenarioA_body) scenarioA_body scenarioA_target []) =
     [\<lparr>sdir = UP, distToFood = Some 1, space = 0\<rparr>,
      \<lparr>sdir = LEFT, distToFood = Some 3, space = 0\<rparr>,
      \<lparr>sdir = RIGHT, distToFood = Some 3, space = 0\<rparr>]" by code_simp
  show "getPath (applyDirection (hd scenarioA_body) UP) scenarioA_target
     (set (butlast (virtualSnake scenarioA_body scenarioA_target (applyDirection (hd scenarioA_body) UP))))
     = Some [UP]" by code_simp
  show "getPath (hd scenarioA_body) scenarioA_target (set scenarioA_body) = Some [UP, UP]" by code_simp
  show "walk (hd scenarioA_body) [UP, UP] = [\<lparr>px = 2, py = 2\<rparr>, \<lparr>px = 2, py = 1\<rparr>, \<lparr>px = 2, py = 0\<rparr>]"
    by simp
  show "length [UP, UP] = 2" by simp
qed

end
